theory Spec2Isabelle
  imports Complex_Main
begin

section \<open>JavaScript numbers\<close>

text \<open>
  The component (\<^verbatim>\<open>src/components/MusicPlayer.tsx\<close>) computes with JavaScript numbers.
  A number is modelled as an exact real, or one of the three non-finite values. Rounding of
  doubles and the sign of zero are not modelled; every finite value is its own number.
\<close>

datatype jsnum = NaN | NegInf | Fin real | PosInf

fun isFinite :: "jsnum \<Rightarrow> bool" where
  "isFinite (Fin x) = True"
| "isFinite _ = False"

text \<open>\<^verbatim>\<open>a < b\<close>: false as soon as one side is \<^verbatim>\<open>NaN\<close>.\<close>

fun js_lt :: "jsnum \<Rightarrow> jsnum \<Rightarrow> bool" where
  "js_lt NaN _ = False"
| "js_lt _ NaN = False"
| "js_lt (Fin a) (Fin b) = (a < b)"
| "js_lt NegInf NegInf = False"
| "js_lt NegInf _ = True"
| "js_lt _ NegInf = False"
| "js_lt PosInf _ = False"
| "js_lt _ PosInf = True"

text \<open>\<^verbatim>\<open>Math.min\<close> and \<^verbatim>\<open>Math.max\<close> of two arguments: \<^verbatim>\<open>NaN\<close> is contagious.\<close>

fun js_min :: "jsnum \<Rightarrow> jsnum \<Rightarrow> jsnum" where
  "js_min NaN _ = NaN"
| "js_min _ NaN = NaN"
| "js_min (Fin a) (Fin b) = Fin (min a b)"
| "js_min NegInf _ = NegInf"
| "js_min _ NegInf = NegInf"
| "js_min PosInf b = b"
| "js_min a PosInf = a"

fun js_max :: "jsnum \<Rightarrow> jsnum \<Rightarrow> jsnum" where
  "js_max NaN _ = NaN"
| "js_max _ NaN = NaN"
| "js_max (Fin a) (Fin b) = Fin (max a b)"
| "js_max PosInf _ = PosInf"
| "js_max _ PosInf = PosInf"
| "js_max NegInf b = b"
| "js_max a NegInf = a"

text \<open>\<^verbatim>\<open>a * b\<close>: zero times infinity is \<^verbatim>\<open>NaN\<close>, otherwise the signs multiply.\<close>

fun js_mul :: "jsnum \<Rightarrow> jsnum \<Rightarrow> jsnum" where
  "js_mul NaN _ = NaN"
| "js_mul _ NaN = NaN"
| "js_mul (Fin a) (Fin b) = Fin (a * b)"
| "js_mul (Fin a) PosInf = (if a = 0 then NaN else if 0 < a then PosInf else NegInf)"
| "js_mul (Fin a) NegInf = (if a = 0 then NaN else if 0 < a then NegInf else PosInf)"
| "js_mul PosInf (Fin b) = (if b = 0 then NaN else if 0 < b then PosInf else NegInf)"
| "js_mul NegInf (Fin b) = (if b = 0 then NaN else if 0 < b then NegInf else PosInf)"
| "js_mul PosInf PosInf = PosInf"
| "js_mul NegInf NegInf = PosInf"
| "js_mul PosInf NegInf = NegInf"
| "js_mul NegInf PosInf = NegInf"

text \<open>Truthiness of a number: \<^verbatim>\<open>0\<close> and \<^verbatim>\<open>NaN\<close> are falsy.\<close>

fun truthy :: "jsnum \<Rightarrow> bool" where
  "truthy NaN = False"
| "truthy (Fin x) = (x \<noteq> 0)"
| "truthy _ = True"

text \<open>
  The remainder \<^verbatim>\<open>a % b\<close> of two finite numbers with \<^verbatim>\<open>b\<close> not zero: the quotient is
  truncated towards zero, so the result has the sign of the dividend.
\<close>

definition js_trunc :: "real \<Rightarrow> int" where
  "js_trunc x = (if x < 0 then \<lceil>x\<rceil> else \<lfloor>x\<rfloor>)"

definition js_rem :: "real \<Rightarrow> real \<Rightarrow> real" where
  "js_rem a b = a - b * of_int (js_trunc (a / b))"

section \<open>Number to string\<close>

definition digit_char :: "nat \<Rightarrow> char" where
  "digit_char d = ''0123456789'' ! d"

fun digits :: "nat \<Rightarrow> string" where
  "digits n = (if n < 10 then [digit_char n] else digits (n div 10) @ [digit_char (n mod 10)])"

declare digits.simps [simp del]

fun strip_zeros :: "string \<Rightarrow> string" where
  "strip_zeros [] = []"
| "strip_zeros (c # cs) =
     (case strip_zeros cs of
        [] \<Rightarrow> (if c = CHR ''0'' then [] else [c])
      | r # rs \<Rightarrow> c # r # rs)"

text \<open>
  \<^verbatim>\<open>String(n)\<close> for an integral number: decimal digits below \<^verbatim>\<open>1e21\<close>, exponent notation
  from there on (the significant digits, a dot after the first one, \<^verbatim>\<open>e+\<close> and the exponent).
\<close>

definition exponent_form :: "nat \<Rightarrow> string" where
  "exponent_form n =
     (let ds = digits n; sig = strip_zeros ds
      in hd ds # (if tl sig = [] then [] else CHR ''.'' # tl sig)
           @ ''e+'' @ digits (length ds - 1))"

definition string_of_nat :: "nat \<Rightarrow> string" where
  "string_of_nat n = (if n < 10 ^ 21 then digits n else exponent_form n)"

definition String :: "int \<Rightarrow> string" where
  "String i = (if i < 0 then CHR ''-'' # string_of_nat (nat (- i)) else string_of_nat (nat i))"

text \<open>\<^verbatim>\<open>s.padStart(n, c)\<close> with a pad string of one character.\<close>

definition padStart :: "nat \<Rightarrow> char \<Rightarrow> string \<Rightarrow> string" where
  "padStart n c s = replicate (n - length s) c @ s"

section \<open>The helpers \<^verbatim>\<open>clamp\<close> and \<^verbatim>\<open>formatTime\<close>\<close>

text \<open>\<^verbatim>\<open>return Math.max(min, Math.min(max, n));\<close>\<close>

definition clamp :: "jsnum \<Rightarrow> jsnum \<Rightarrow> jsnum \<Rightarrow> jsnum" where
  "clamp n lo hi = js_max lo (js_min hi n)"

text \<open>
  \<^verbatim>\<open>if (!isFinite(sec) || sec < 0) return "0:00";\<close>
  \<^verbatim>\<open>const m = Math.floor(sec / 60); const s = Math.floor(sec % 60);\<close>
  \<^verbatim>\<open>return `${m}:${String(s).padStart(2, "0")}`;\<close>
  Past the guard \<^verbatim>\<open>sec\<close> is finite and not negative, so both floors are integers.
\<close>

definition formatTime :: "jsnum \<Rightarrow> string" where
  "formatTime sec =
     (if \<not> isFinite sec \<or> js_lt sec (Fin 0) then ''0:00''
      else (case sec of
              Fin x \<Rightarrow>
                (let m = \<lfloor>x / 60\<rfloor>; s = \<lfloor>js_rem x 60\<rfloor>
                 in String m @ '':'' @ padStart 2 (CHR ''0'') (String s))
            | _ \<Rightarrow> ''0:00''))"

section \<open>Tracks, the audio element and the component state\<close>

record track =
  id_track :: string
  title :: string
  artist :: string
  coverUrl :: "string option"
  audioUrl :: string
  durationHint :: "jsnum option"

datatype PlayerStatus = Paused | Loading | Playing

text \<open>The playlist that \<^verbatim>\<open>MusicPlayer\<close> memoises.\<close>

definition tracks :: "track list" where
  "tracks =
     [\<lparr>id_track = ''t1'', title = ''Awesome Song Title'', artist = ''Amazing Artist'',
       coverUrl = None,
       audioUrl = ''https://cdn.pixabay.com/download/audio/2022/03/15/audio_2b1fe7a2ab.mp3?filename=future-bass-logo-19442.mp3'',
       durationHint = None\<rparr>,
      \<lparr>id_track = ''t2'', title = ''Second Track'', artist = ''Another Artist'',
       coverUrl = None,
       audioUrl = ''https://cdn.pixabay.com/download/audio/2022/10/03/audio_1d2c1b0f2a.mp3?filename=ambient-piano-logo-12047.mp3'',
       durationHint = None\<rparr>]"

text \<open>
  The \<^verbatim>\<open><audio>\<close> element is the browser's. The model keeps the two sides of it apart:
  what the component reads from it (\<^verbatim>\<open>a.paused\<close>, \<^verbatim>\<open>a.duration\<close>, \<^verbatim>\<open>a.currentTime\<close>) is an
  input of every step, chosen by the environment; what the component does to it is appended
  to a log of calls, in program order.
\<close>

record audio =
  a_paused :: bool
  a_duration :: jsnum
  a_currentTime :: jsnum

datatype adapter_call =
    SetSrc string
  | Load
  | SetCurrentTime jsnum
  | Play
  | Pause
  | SetVolume jsnum

datatype audio_event =
    Ev_loadedmetadata | Ev_timeupdate | Ev_ended | Ev_waiting | Ev_playing | Ev_pause

text \<open>
  The six handlers that one run of the load effect registers close over the values of the
  render that ran it: \<^verbatim>\<open>track\<close> (in \<^verbatim>\<open>onLoaded\<close>), \<^verbatim>\<open>isRepeat\<close> (in \<^verbatim>\<open>onEnded\<close>) and, through
  \<^verbatim>\<open>next\<close> and \<^verbatim>\<open>pickRandomNext\<close>, \<^verbatim>\<open>isShuffle\<close> and \<^verbatim>\<open>index\<close>.
\<close>

record closure =
  c_track :: track
  c_index :: nat
  c_isRepeat :: bool
  c_isShuffle :: bool

text \<open>
  What happens when a promise returned by \<^verbatim>\<open>a.play()\<close> rejects: the \<^verbatim>\<open>catch\<close> block of
  \<^verbatim>\<open>togglePlay\<close> sets the status back, the \<^verbatim>\<open>.catch(() => {})\<close> of \<^verbatim>\<open>onEnded\<close> does nothing.
\<close>

datatype play_cont = RevertToPaused | Swallow

record player =
  index :: nat
  status :: PlayerStatus
  isShuffle :: bool
  isRepeat :: bool
  current :: jsnum
  duration :: jsnum
  volume :: jsnum
  calls :: "adapter_call list"
  listeners :: "closure list"
  load_hook :: "closure option"
  volume_deps :: "jsnum option"
  pending :: "play_cont list"

text \<open>
  What can go wrong in a step. A \<^verbatim>\<open>TypeError\<close> is thrown in two places: by a render that reads
  \<^verbatim>\<open>track.audioUrl\<close> of an \<^verbatim>\<open>undefined\<close> track, which leaves no component, and by the setters
  \<^verbatim>\<open>a.currentTime\<close> and \<^verbatim>\<open>a.volume\<close> of the element when they are given a value that is not
  finite. \<^verbatim>\<open>Diverges\<close> is a loop that does not end.
\<close>

datatype type_error = UndefinedTrack | NonFiniteValue

datatype failure = TypeError type_error | Diverges

text \<open>The \<^verbatim>\<open>useState\<close> initial values; nothing has run yet.\<close>

definition initial :: player where
  "initial =
     \<lparr>index = 0, status = Paused, isShuffle = False, isRepeat = False,
      current = Fin 0, duration = Fin 0, volume = Fin (8 / 10),
      calls = [], listeners = [], load_hook = None, volume_deps = None, pending = []\<rparr>"

section \<open>Rendering and the two effects\<close>

text \<open>\<^verbatim>\<open>tracks[index]\<close>: \<^verbatim>\<open>undefined\<close> out of range.\<close>

definition lookup :: "track list \<Rightarrow> nat \<Rightarrow> track option" where
  "lookup ts i = (if i < length ts then Some (ts ! i) else None)"

text \<open>
  A render evaluates \<^verbatim>\<open>track.audioUrl\<close> in the dependency list of the load effect, which
  throws a \<^verbatim>\<open>TypeError\<close> when \<^verbatim>\<open>track\<close> is \<^verbatim>\<open>undefined\<close>.
\<close>

definition render_track :: "track list \<Rightarrow> player \<Rightarrow> failure + track" where
  "render_track ts s =
     (case lookup ts (index s) of None \<Rightarrow> Inl (TypeError UndefinedTrack) | Some t \<Rightarrow> Inr t)"

definition deps :: "closure \<Rightarrow> nat \<times> string \<times> bool" where
  "deps c = (c_index c, audioUrl (c_track c), c_isRepeat c)"

text \<open>The body of the load effect, and the cleanup function it returns.\<close>

definition run_load :: "closure \<Rightarrow> player \<Rightarrow> player" where
  "run_load c s =
     s\<lparr>status := Loading, current := Fin 0, duration := Fin 0,
       calls := calls s @ [SetSrc (audioUrl (c_track c)), Load],
       listeners := listeners s @ [c],
       load_hook := Some c\<rparr>"

definition cleanup :: "closure \<Rightarrow> player \<Rightarrow> player" where
  "cleanup c s = s\<lparr>listeners := remove1 c (listeners s)\<rparr>"

definition load_effect :: "closure \<Rightarrow> player \<Rightarrow> player" where
  "load_effect c s =
     (case load_hook s of
        None \<Rightarrow> run_load c s
      | Some old \<Rightarrow> if deps old = deps c then s else run_load c (cleanup old s))"

text \<open>\<^verbatim>\<open>a.volume = clamp(volume, 0, 1)\<close>, run when \<^verbatim>\<open>volume\<close> has changed.\<close>

definition volume_effect :: "player \<Rightarrow> player" where
  "volume_effect s =
     (if volume_deps s = Some (volume s) then s
      else s\<lparr>calls := calls s @ [SetVolume (clamp (volume s) (Fin 0) (Fin 1))],
             volume_deps := Some (volume s)\<rparr>)"

text \<open>
  After a state update the component renders again and the effects whose dependencies
  changed run, in the order of the source.
\<close>

definition commit :: "track list \<Rightarrow> player \<Rightarrow> failure + player" where
  "commit ts s =
     (case render_track ts s of
        Inl e \<Rightarrow> Inl e
      | Inr t \<Rightarrow>
          Inr (volume_effect
                 (load_effect
                    \<lparr>c_track = t, c_index = index s, c_isRepeat = isRepeat s,
                     c_isShuffle = isShuffle s\<rparr> s)))"

definition mount :: "track list \<Rightarrow> failure + player" where
  "mount ts = commit ts initial"

section \<open>Navigation\<close>

text \<open>
  \<^verbatim>\<open>Math.random()\<close> is an input: \<^verbatim>\<open>rnd k\<close> is the value its \<^verbatim>\<open>k\<close>-th call returns during the
  step at hand. The loop of \<^verbatim>\<open>pickRandomNext\<close>,
  \<^verbatim>\<open>while (nextIdx === index) nextIdx = Math.floor(Math.random() * tracks.length);\<close>
  need not end; \<^verbatim>\<open>None\<close> is the run that draws the current index for ever.
\<close>

partial_function (option) pick_loop :: "(nat \<Rightarrow> real) \<Rightarrow> nat \<Rightarrow> nat \<Rightarrow> nat \<Rightarrow> nat \<Rightarrow> nat option" where
  "pick_loop rnd len idx k nextIdx =
     (if nextIdx = idx then pick_loop rnd len idx (Suc k) (nat \<lfloor>rnd k * real len\<rfloor>)
      else Some nextIdx)"

definition pickRandomNext :: "track list \<Rightarrow> (nat \<Rightarrow> real) \<Rightarrow> nat \<Rightarrow> nat option" where
  "pickRandomNext ts rnd idx =
     (if length ts \<le> 1 then Some idx else pick_loop rnd (length ts) idx 0 idx)"

text \<open>
  The updaters handed to \<^verbatim>\<open>setIndex\<close> by \<^verbatim>\<open>prev\<close> and \<^verbatim>\<open>next\<close>. The flag \<^verbatim>\<open>shuffle\<close> and the index
  \<^verbatim>\<open>idx\<close> that \<^verbatim>\<open>pickRandomNext\<close> compares with are those of the render that made the function;
  \<^verbatim>\<open>i\<close> is the index in the state. The sequential branches are computed on integers, as
  \<^verbatim>\<open>(i - 1 + tracks.length) % tracks.length\<close> and \<^verbatim>\<open>(i + 1) % tracks.length\<close>.
\<close>

definition prev_index :: "track list \<Rightarrow> (nat \<Rightarrow> real) \<Rightarrow> bool \<Rightarrow> nat \<Rightarrow> nat \<Rightarrow> nat option" where
  "prev_index ts rnd shuffle idx i =
     (if shuffle then pickRandomNext ts rnd idx
      else Some (nat ((int i - 1 + int (length ts)) mod int (length ts))))"

definition next_index :: "track list \<Rightarrow> (nat \<Rightarrow> real) \<Rightarrow> bool \<Rightarrow> nat \<Rightarrow> nat \<Rightarrow> nat option" where
  "next_index ts rnd shuffle idx i =
     (if shuffle then pickRandomNext ts rnd idx
      else Some (nat ((int i + 1) mod int (length ts))))"

definition set_index :: "nat option \<Rightarrow> player \<Rightarrow> failure + player" where
  "set_index r s = (case r of None \<Rightarrow> Inl Diverges | Some j \<Rightarrow> Inr (s\<lparr>index := j\<rparr>))"

text \<open>
  Every command and every event is followed by the render and the effects it causes. A
  step is therefore the state update \<^verbatim>\<open>u\<close> and then \<^const>\<open>commit\<close>.
\<close>

definition then_commit :: "track list \<Rightarrow> failure + player \<Rightarrow> failure + player" where
  "then_commit ts u = (case u of Inl e \<Rightarrow> Inl e | Inr s \<Rightarrow> commit ts s)"

text \<open>The two buttons: the functions of the latest render.\<close>

definition prev :: "track list \<Rightarrow> (nat \<Rightarrow> real) \<Rightarrow> player \<Rightarrow> failure + player" where
  "prev ts rnd s =
     then_commit ts (set_index (prev_index ts rnd (isShuffle s) (index s) (index s)) s)"

definition "next" :: "track list \<Rightarrow> (nat \<Rightarrow> real) \<Rightarrow> player \<Rightarrow> failure + player" where
  "next ts rnd s =
     then_commit ts (set_index (next_index ts rnd (isShuffle s) (index s) (index s)) s)"

section \<open>The other commands\<close>

text \<open>
  \<^verbatim>\<open>togglePlay\<close> up to its \<^verbatim>\<open>await\<close>. The rest of it, the \<^verbatim>\<open>catch\<close> block, is queued in
  \<^const>\<open>pending\<close> and runs in \<^verbatim>\<open>play_settled\<close> below.
\<close>

definition togglePlay :: "track list \<Rightarrow> audio \<Rightarrow> player \<Rightarrow> failure + player" where
  "togglePlay ts a s =
     then_commit ts
       (Inr (if a_paused a
             then s\<lparr>status := Loading, calls := calls s @ [Play],
                    pending := pending s @ [RevertToPaused]\<rparr>
             else s\<lparr>calls := calls s @ [Pause]\<rparr>))"

text \<open>
  The \<^verbatim>\<open>k\<close>-th of the promises of \<^verbatim>\<open>a.play()\<close> not yet settled settles; \<^verbatim>\<open>rejected\<close> says
  how. Its continuation runs and leaves the queue.
\<close>

definition play_settled :: "track list \<Rightarrow> nat \<Rightarrow> bool \<Rightarrow> player \<Rightarrow> failure + player" where
  "play_settled ts k rejected s =
     then_commit ts
       (Inr (if k < length (pending s)
             then (let rest = take k (pending s) @ drop (Suc k) (pending s)
                   in if rejected \<and> pending s ! k = RevertToPaused
                      then s\<lparr>status := Paused, pending := rest\<rparr>
                      else s\<lparr>pending := rest\<rparr>)
             else s))"

text \<open>
  \<^verbatim>\<open>if (!a || !duration) return;\<close>
  \<^verbatim>\<open>const t = clamp(p, 0, 1) * duration; a.currentTime = t; setCurrent(t);\<close>
  The setter of \<^verbatim>\<open>a.currentTime\<close> throws a \<^verbatim>\<open>TypeError\<close> when \<^verbatim>\<open>t\<close> is not finite; then
  \<^verbatim>\<open>setCurrent(t)\<close> is not reached and the state stays as it was.
\<close>

definition seekTo :: "track list \<Rightarrow> jsnum \<Rightarrow> player \<Rightarrow> failure + player" where
  "seekTo ts p s =
     (if \<not> truthy (duration s) then then_commit ts (Inr s)
      else (let t = js_mul (clamp p (Fin 0) (Fin 1)) (duration s)
            in if \<not> isFinite t then Inl (TypeError NonFiniteValue)
               else then_commit ts
                      (Inr (s\<lparr>calls := calls s @ [SetCurrentTime t], current := t\<rparr>))))"

text \<open>
  The shuffle and repeat buttons, and the volume slider's \<^verbatim>\<open>onChange\<close>. The volume changes
  nowhere else, so this is the one place from which a value that is not finite can reach
  the write \<^verbatim>\<open>a.volume = clamp(volume, 0, 1)\<close> of the volume effect. That write throws a
  \<^verbatim>\<open>TypeError\<close> then; the throw is modelled here, and \<^const>\<open>volume_effect\<close> is the write that
  succeeds.
\<close>

definition toggleShuffle :: "track list \<Rightarrow> player \<Rightarrow> failure + player" where
  "toggleShuffle ts s = then_commit ts (Inr (s\<lparr>isShuffle := \<not> isShuffle s\<rparr>))"

definition toggleRepeat :: "track list \<Rightarrow> player \<Rightarrow> failure + player" where
  "toggleRepeat ts s = then_commit ts (Inr (s\<lparr>isRepeat := \<not> isRepeat s\<rparr>))"

definition setVolume :: "track list \<Rightarrow> jsnum \<Rightarrow> player \<Rightarrow> failure + player" where
  "setVolume ts v s =
     (if volume_deps s \<noteq> Some v \<and> \<not> isFinite (clamp v (Fin 0) (Fin 1))
      then Inl (TypeError NonFiniteValue)
      else then_commit ts (Inr (s\<lparr>volume := v\<rparr>)))"

text \<open>The gain the element has: the last value written to \<^verbatim>\<open>a.volume\<close>.\<close>

fun applied_volume :: "adapter_call list \<Rightarrow> jsnum option" where
  "applied_volume [] = None"
| "applied_volume (c # cs) =
     (case applied_volume cs of
        Some g \<Rightarrow> Some g
      | None \<Rightarrow> (case c of SetVolume g \<Rightarrow> Some g | _ \<Rightarrow> None))"

section \<open>The event handlers of the load effect\<close>

text \<open>\<^verbatim>\<open>x || y\<close> on numbers, and \<^verbatim>\<open>track.durationHint || 0\<close> on the optional field.\<close>

definition js_or :: "jsnum \<Rightarrow> jsnum \<Rightarrow> jsnum" where
  "js_or x y = (if truthy x then x else y)"

definition hint_or_0 :: "track \<Rightarrow> jsnum" where
  "hint_or_0 t = (case durationHint t of None \<Rightarrow> Fin 0 | Some h \<Rightarrow> js_or h (Fin 0))"

definition onLoaded :: "closure \<Rightarrow> audio \<Rightarrow> player \<Rightarrow> player" where
  "onLoaded c a s = s\<lparr>duration := js_or (a_duration a) (hint_or_0 (c_track c)), status := Paused\<rparr>"

definition onTime :: "audio \<Rightarrow> player \<Rightarrow> player" where
  "onTime a s = s\<lparr>current := js_or (a_currentTime a) (Fin 0)\<rparr>"

definition onEnded :: "track list \<Rightarrow> (nat \<Rightarrow> real) \<Rightarrow> closure \<Rightarrow> player \<Rightarrow> failure + player" where
  "onEnded ts rnd c s =
     (if c_isRepeat c
      then Inr (s\<lparr>calls := calls s @ [SetCurrentTime (Fin 0), Play],
                  pending := pending s @ [Swallow], status := Playing\<rparr>)
      else set_index (next_index ts rnd (c_isShuffle c) (c_index c) (index s)) s)"

definition onWaiting :: "audio \<Rightarrow> player \<Rightarrow> player" where
  "onWaiting a s = (if \<not> a_paused a then s\<lparr>status := Loading\<rparr> else s)"

definition onPlaying :: "player \<Rightarrow> player" where
  "onPlaying s = s\<lparr>status := Playing\<rparr>"

definition onPause :: "player \<Rightarrow> player" where
  "onPause s = s\<lparr>status := Paused\<rparr>"

definition handle :: "track list \<Rightarrow> (nat \<Rightarrow> real) \<Rightarrow> audio_event \<Rightarrow> audio \<Rightarrow> closure \<Rightarrow> player \<Rightarrow> failure + player" where
  "handle ts rnd ev a c s =
     (case ev of
        Ev_loadedmetadata \<Rightarrow> Inr (onLoaded c a s)
      | Ev_timeupdate \<Rightarrow> Inr (onTime a s)
      | Ev_ended \<Rightarrow> onEnded ts rnd c s
      | Ev_waiting \<Rightarrow> Inr (onWaiting a s)
      | Ev_playing \<Rightarrow> Inr (onPlaying s)
      | Ev_pause \<Rightarrow> Inr (onPause s))"

text \<open>
  The element calls every handler registered for the event, in the order of registration.
  An event has no other content: the handlers read the element when they run.
\<close>

fun run_handlers :: "track list \<Rightarrow> (nat \<Rightarrow> real) \<Rightarrow> audio_event \<Rightarrow> audio \<Rightarrow> closure list \<Rightarrow> player \<Rightarrow> failure + player" where
  "run_handlers ts rnd ev a [] s = Inr s"
| "run_handlers ts rnd ev a (c # cs) s =
     (case handle ts rnd ev a c s of
        Inl e \<Rightarrow> Inl e
      | Inr s' \<Rightarrow> run_handlers ts rnd ev a cs s')"

definition deliver :: "track list \<Rightarrow> (nat \<Rightarrow> real) \<Rightarrow> audio_event \<Rightarrow> audio \<Rightarrow> player \<Rightarrow> failure + player" where
  "deliver ts rnd ev a s = then_commit ts (run_handlers ts rnd ev a (listeners s) s)"

section \<open>The component as a transition system\<close>

datatype input =
    Prev | Next | TogglePlay | ToggleShuffle | ToggleRepeat
  | SeekTo jsnum | SetVolumeTo jsnum | Event audio_event | PlaySettled nat bool

definition step :: "track list \<Rightarrow> (nat \<Rightarrow> real) \<Rightarrow> audio \<Rightarrow> input \<Rightarrow> player \<Rightarrow> failure + player" where
  "step ts rnd a i s =
     (case i of
        Prev \<Rightarrow> prev ts rnd s
      | Next \<Rightarrow> next ts rnd s
      | TogglePlay \<Rightarrow> togglePlay ts a s
      | ToggleShuffle \<Rightarrow> toggleShuffle ts s
      | ToggleRepeat \<Rightarrow> toggleRepeat ts s
      | SeekTo p \<Rightarrow> seekTo ts p s
      | SetVolumeTo v \<Rightarrow> setVolume ts v s
      | Event ev \<Rightarrow> deliver ts rnd ev a s
      | PlaySettled k rejected \<Rightarrow> play_settled ts k rejected s)"

inductive reachable :: "track list \<Rightarrow> player \<Rightarrow> bool" for ts :: "track list" where
  mounted: "mount ts = Inr s \<Longrightarrow> reachable ts s"
| stepped: "reachable ts s \<Longrightarrow> step ts rnd a i s = Inr s' \<Longrightarrow> reachable ts s'"

text \<open>\<^verbatim>\<open>next()\<close> composed \<^verbatim>\<open>n\<close> times, each call followed by its render.\<close>

fun next_times :: "track list \<Rightarrow> (nat \<Rightarrow> real) \<Rightarrow> nat \<Rightarrow> player \<Rightarrow> failure + player" where
  "next_times ts rnd 0 s = Inr s"
| "next_times ts rnd (Suc n) s =
     (case next ts rnd s of Inl e \<Rightarrow> Inl e | Inr s' \<Rightarrow> next_times ts rnd n s')"

section \<open>Invariants of the mounted component\<close>

text \<open>
  \<^verbatim>\<open>hooked\<close>: the load effect has run; the handlers on the element are those of its last run
  and of no other; the track they close over is the one at the index they close over; the
  volume effect has run and the element has the gain it wrote. State updates keep this.
  \<^verbatim>\<open>synced\<close>: moreover the effects are up to date with the state, which holds after every
  commit.
\<close>

definition hooked :: "track list \<Rightarrow> player \<Rightarrow> bool" where
  "hooked ts s =
     (case load_hook s of
        None \<Rightarrow> False
      | Some c \<Rightarrow>
          listeners s = [c] \<and> c_track c = ts ! c_index c \<and>
          (case volume_deps s of
             None \<Rightarrow> False
           | Some v \<Rightarrow> applied_volume (calls s) = Some (clamp v (Fin 0) (Fin 1))))"

definition synced :: "track list \<Rightarrow> player \<Rightarrow> bool" where
  "synced ts s =
     (index s < length ts \<and> hooked ts s \<and> volume_deps s = Some (volume s) \<and>
      (case load_hook s of
         None \<Rightarrow> False
       | Some c \<Rightarrow> c_index c = index s \<and> c_isRepeat c = isRepeat s))"

section \<open>Example inputs and states\<close>

text \<open>The state in which the first commit leaves the component with the playlist of the source.\<close>

definition on_mount :: player where
  "on_mount =
     \<lparr>index = 0, status = Loading, isShuffle = False, isRepeat = False,
      current = Fin 0, duration = Fin 0, volume = Fin (8 / 10),
      calls = [SetSrc (audioUrl (tracks ! 0)), Load, SetVolume (Fin (8 / 10))],
      listeners = [\<lparr>c_track = tracks ! 0, c_index = 0, c_isRepeat = False, c_isShuffle = False\<rparr>],
      load_hook = Some \<lparr>c_track = tracks ! 0, c_index = 0, c_isRepeat = False, c_isShuffle = False\<rparr>,
      volume_deps = Some (Fin (8 / 10)), pending = []\<rparr>"

text \<open>Two sequences of draws for the examples: all zero, and zero first and then 3/4.\<close>

definition draws_0 :: "nat \<Rightarrow> real" where
  "draws_0 k = 0"

definition draws_0_then_34 :: "nat \<Rightarrow> real" where
  "draws_0_then_34 k = (if k = 0 then 0 else 3 / 4)"

text \<open>
  Example inputs and states: an element that is not playing and reports a duration of 200
  seconds; the component once that metadata has arrived; the component once the play button
  has been pressed in the state after mount.
\<close>

definition el_paused :: audio where
  "el_paused = \<lparr>a_paused = True, a_duration = Fin 200, a_currentTime = Fin 0\<rparr>"

definition metadata_loaded :: player where
  "metadata_loaded = on_mount\<lparr>duration := Fin 200, status := Paused\<rparr>"

definition play_requested :: player where
  "play_requested =
     on_mount\<lparr>status := Loading, calls := calls on_mount @ [Play],
              pending := pending on_mount @ [RevertToPaused]\<rparr>"

text \<open>
  More example states: the component after \<^verbatim>\<open>next()\<close> in the state after mount; the component
  with repeat on while the first track plays; the element at the end of that track; an
  element that reports no duration.
\<close>

definition switched :: player where
  "switched =
     on_mount\<lparr>index := 1,
              calls := calls on_mount @ [SetSrc (audioUrl (tracks ! 1)), Load],
              listeners := [\<lparr>c_track = tracks ! 1, c_index = 1, c_isRepeat = False, c_isShuffle = False\<rparr>],
              load_hook := Some \<lparr>c_track = tracks ! 1, c_index = 1, c_isRepeat = False, c_isShuffle = False\<rparr>\<rparr>"

definition repeating :: player where
  "repeating =
     on_mount\<lparr>isRepeat := True, status := Playing, duration := Fin 200,
              calls := calls on_mount @ [SetSrc (audioUrl (tracks ! 0)), Load, Play],
              listeners := [\<lparr>c_track = tracks ! 0, c_index = 0, c_isRepeat = True, c_isShuffle = False\<rparr>],
              load_hook := Some \<lparr>c_track = tracks ! 0, c_index = 0, c_isRepeat = True, c_isShuffle = False\<rparr>\<rparr>"

definition el_ended :: audio where
  "el_ended = \<lparr>a_paused = False, a_duration = Fin 200, a_currentTime = Fin 200\<rparr>"

definition el_reset :: audio where
  "el_reset = \<lparr>a_paused = True, a_duration = NaN, a_currentTime = Fin 0\<rparr>"

text \<open>
  An element that reports an unbounded duration, as it does for a stream, and the component
  once that metadata has arrived.
\<close>

definition el_live :: audio where
  "el_live = \<lparr>a_paused = True, a_duration = PosInf, a_currentTime = Fin 0\<rparr>"

definition live_stream :: player where
  "live_stream = on_mount\<lparr>duration := PosInf, status := Paused\<rparr>"

section \<open>Basic facts\<close>

lemma applied_volume_append:
  "applied_volume (cs @ ds) =
     (case applied_volume ds of Some g \<Rightarrow> Some g | None \<Rightarrow> applied_volume cs)"
  by (induction cs) (auto split: adapter_call.splits option.splits)

lemma commit_synced: "synced ts s \<Longrightarrow> commit ts s = Inr s"
  by (auto simp: synced_def hooked_def commit_def render_track_def lookup_def load_effect_def
      volume_effect_def deps_def split: option.splits)

lemma commit_hooked:
  "hooked ts s \<Longrightarrow> index s < length ts \<Longrightarrow> \<exists>s'. commit ts s = Inr s' \<and> synced ts s'"
  by (auto simp: synced_def hooked_def commit_def render_track_def lookup_def load_effect_def
      volume_effect_def deps_def run_load_def cleanup_def applied_volume_append
      split: option.splits)

lemma mount_synced: "mount ts = Inr s \<Longrightarrow> synced ts s"
  by (auto simp: mount_def initial_def synced_def hooked_def commit_def render_track_def
      lookup_def load_effect_def volume_effect_def deps_def run_load_def
      applied_volume_append split: option.splits if_splits)

lemma commit_frame:
  "commit ts s = Inr s' \<Longrightarrow>
     index s' = index s \<and> index s' < length ts \<and> isShuffle s' = isShuffle s \<and>
     isRepeat s' = isRepeat s \<and> volume s' = volume s \<and> pending s' = pending s"
  by (auto simp: commit_def render_track_def lookup_def load_effect_def
      volume_effect_def deps_def run_load_def cleanup_def split: option.splits if_splits)

lemma commit_total: "index s < length ts \<Longrightarrow> \<exists>s'. commit ts s = Inr s'"
  by (simp add: commit_def render_track_def lookup_def)

lemma commit_hooked_synced:
  assumes "hooked ts s" "commit ts s = Inr s'"
  shows "synced ts s'"
proof -
  from assms(2) have "index s < length ts"
    by (auto simp: commit_def render_track_def lookup_def split: if_splits)
  from commit_hooked [OF assms(1) this] assms(2) show ?thesis by auto
qed

lemma synced_hooked: "synced ts s \<Longrightarrow> hooked ts s"
  by (simp add: synced_def)

lemma then_commit_synced:
  "hooked ts s \<Longrightarrow> then_commit ts (Inr s) = Inr s' \<Longrightarrow> synced ts s'"
  by (simp add: then_commit_def commit_hooked_synced)

lemma hooked_set_index:
  "hooked ts s \<Longrightarrow> set_index r s = Inr s1 \<Longrightarrow> hooked ts s1"
  by (auto simp: set_index_def hooked_def split: option.splits)

lemma handle_hooked:
  "hooked ts s \<Longrightarrow> handle ts rnd ev a c s = Inr s1 \<Longrightarrow> hooked ts s1"
  by (cases ev)
    (auto simp: handle_def onLoaded_def onTime_def onEnded_def onWaiting_def onPlaying_def
      onPause_def set_index_def hooked_def applied_volume_append
      split: option.splits if_splits)

lemma run_handlers_hooked:
  "hooked ts s \<Longrightarrow> run_handlers ts rnd ev a cs s = Inr s1 \<Longrightarrow> hooked ts s1"
  by (induction cs arbitrary: s) (auto split: sum.splits dest: handle_hooked)

lemma step_synced:
  assumes "synced ts s" "step ts rnd a i s = Inr s'"
  shows "synced ts s'"
proof -
  have h: "hooked ts s" using assms(1) by (rule synced_hooked)
  show ?thesis
  proof (cases i)
    case Prev
    with assms(2) obtain s1 where "set_index (prev_index ts rnd (isShuffle s) (index s) (index s)) s = Inr s1"
      "commit ts s1 = Inr s'"
      by (auto simp: step_def prev_def then_commit_def split: sum.splits)
    with h show ?thesis by (blast intro: commit_hooked_synced hooked_set_index)
  next
    case Next
    with assms(2) obtain s1 where "set_index (next_index ts rnd (isShuffle s) (index s) (index s)) s = Inr s1"
      "commit ts s1 = Inr s'"
      by (auto simp: step_def next_def then_commit_def split: sum.splits)
    with h show ?thesis by (blast intro: commit_hooked_synced hooked_set_index)
  next
    case TogglePlay
    have "hooked ts (if a_paused a
             then s\<lparr>status := Loading, calls := calls s @ [Play],
                    pending := pending s @ [RevertToPaused]\<rparr>
             else s\<lparr>calls := calls s @ [Pause]\<rparr>)"
      using h by (auto simp: hooked_def applied_volume_append split: option.splits)
    moreover from TogglePlay assms(2) have "then_commit ts (Inr (if a_paused a
             then s\<lparr>status := Loading, calls := calls s @ [Play],
                    pending := pending s @ [RevertToPaused]\<rparr>
             else s\<lparr>calls := calls s @ [Pause]\<rparr>)) = Inr s'"
      by (simp add: step_def togglePlay_def)
    ultimately show ?thesis by (rule then_commit_synced)
  next
    case ToggleShuffle
    have "hooked ts (s\<lparr>isShuffle := \<not> isShuffle s\<rparr>)"
      using h by (auto simp: hooked_def split: option.splits)
    moreover from ToggleShuffle assms(2)
    have "then_commit ts (Inr (s\<lparr>isShuffle := \<not> isShuffle s\<rparr>)) = Inr s'"
      by (simp add: step_def toggleShuffle_def)
    ultimately show ?thesis by (rule then_commit_synced)
  next
    case ToggleRepeat
    have "hooked ts (s\<lparr>isRepeat := \<not> isRepeat s\<rparr>)"
      using h by (auto simp: hooked_def split: option.splits)
    moreover from ToggleRepeat assms(2)
    have "then_commit ts (Inr (s\<lparr>isRepeat := \<not> isRepeat s\<rparr>)) = Inr s'"
      by (simp add: step_def toggleRepeat_def)
    ultimately show ?thesis by (rule then_commit_synced)
  next
    case (SeekTo p)
    define s1 where "s1 = (if \<not> truthy (duration s) then s
             else (let t = js_mul (clamp p (Fin 0) (Fin 1)) (duration s)
                   in s\<lparr>calls := calls s @ [SetCurrentTime t], current := t\<rparr>))"
    have "hooked ts s1"
      using h by (auto simp: s1_def hooked_def applied_volume_append Let_def split: option.splits)
    moreover from SeekTo assms(2) have "then_commit ts (Inr s1) = Inr s'"
      by (auto simp: step_def seekTo_def s1_def Let_def split: if_splits)
    ultimately show ?thesis by (rule then_commit_synced)
  next
    case (SetVolumeTo v)
    have "hooked ts (s\<lparr>volume := v\<rparr>)"
      using h by (auto simp: hooked_def split: option.splits)
    moreover from SetVolumeTo assms(2) have "then_commit ts (Inr (s\<lparr>volume := v\<rparr>)) = Inr s'"
      by (auto simp: step_def setVolume_def split: if_splits)
    ultimately show ?thesis by (rule then_commit_synced)
  next
    case (Event ev)
    with assms(2) obtain s1 where "run_handlers ts rnd ev a (listeners s) s = Inr s1"
      "commit ts s1 = Inr s'"
      by (auto simp: step_def deliver_def then_commit_def split: sum.splits)
    with h show ?thesis by (blast intro: commit_hooked_synced run_handlers_hooked)
  next
    case (PlaySettled k rejected)
    define s1 where "s1 = (if k < length (pending s)
             then (let rest = take k (pending s) @ drop (Suc k) (pending s)
                   in if rejected \<and> pending s ! k = RevertToPaused
                      then s\<lparr>status := Paused, pending := rest\<rparr>
                      else s\<lparr>pending := rest\<rparr>)
             else s)"
    have "hooked ts s1"
      using h by (auto simp: s1_def hooked_def Let_def split: option.splits)
    moreover from PlaySettled assms(2) have "then_commit ts (Inr s1) = Inr s'"
      by (simp add: step_def play_settled_def s1_def)
    ultimately show ?thesis by (rule then_commit_synced)
  qed
qed

lemma reachable_synced: "reachable ts s \<Longrightarrow> synced ts s"
  by (induction rule: reachable.induct) (auto intro: mount_synced step_synced)

section \<open>The loop of \<^verbatim>\<open>pickRandomNext\<close>\<close>

lemma pick_loop_sound:
  assumes "pick_loop rnd len idx k n = Some y"
  shows "y \<noteq> idx \<and> (y = n \<or> (\<exists>j\<ge>k. y = nat \<lfloor>rnd j * real len\<rfloor>))"
proof (rule pick_loop.raw_induct
    [where P = "\<lambda>rnd len idx k n y. y \<noteq> idx \<and> (y = n \<or> (\<exists>j\<ge>k. y = nat \<lfloor>rnd j * real len\<rfloor>))",
      OF _ assms])
  fix f :: "(nat \<Rightarrow> real) \<Rightarrow> nat \<Rightarrow> nat \<Rightarrow> nat \<Rightarrow> nat \<Rightarrow> nat option"
  fix rnd len idx k nextIdx y
  assume IH: "\<And>rnd len idx k n y. f rnd len idx k n = Some y \<Longrightarrow>
      y \<noteq> idx \<and> (y = n \<or> (\<exists>j\<ge>k. y = nat \<lfloor>rnd j * real len\<rfloor>))"
  assume body: "(if nextIdx = idx then f rnd len idx (Suc k) (nat \<lfloor>rnd k * real len\<rfloor>)
      else Some nextIdx) = Some y"
  show "y \<noteq> idx \<and> (y = nextIdx \<or> (\<exists>j\<ge>k. y = nat \<lfloor>rnd j * real len\<rfloor>))"
  proof (cases "nextIdx = idx")
    case True
    with body have rec: "f rnd len idx (Suc k) (nat \<lfloor>rnd k * real len\<rfloor>) = Some y"
      by simp
    from IH [OF rec] have ne: "y \<noteq> idx"
      and alt: "y = nat \<lfloor>rnd k * real len\<rfloor> \<or> (\<exists>j\<ge>Suc k. y = nat \<lfloor>rnd j * real len\<rfloor>)"
      by simp_all
    from alt have "\<exists>j\<ge>k. y = nat \<lfloor>rnd j * real len\<rfloor>"
    proof
      assume "y = nat \<lfloor>rnd k * real len\<rfloor>"
      then show ?thesis by (intro exI [of _ k]) simp
    next
      assume "\<exists>j\<ge>Suc k. y = nat \<lfloor>rnd j * real len\<rfloor>"
      then obtain j where "Suc k \<le> j" "y = nat \<lfloor>rnd j * real len\<rfloor>" by blast
      then show ?thesis by (intro exI [of _ j]) simp
    qed
    with ne show ?thesis by simp
  next
    case False
    with body show ?thesis by simp
  qed
qed

lemma pick_loop_first:
  "\<forall>i. k \<le> i \<and> i < k + n \<longrightarrow> nat \<lfloor>rnd i * real len\<rfloor> = idx \<Longrightarrow>
   nat \<lfloor>rnd (k + n) * real len\<rfloor> \<noteq> idx \<Longrightarrow>
   pick_loop rnd len idx k idx = Some (nat \<lfloor>rnd (k + n) * real len\<rfloor>)"
proof (induction n arbitrary: k)
  case 0
  then show ?case
    by (simp add: pick_loop.simps [of rnd len idx k idx]
        pick_loop.simps [of rnd len idx "Suc k" "nat \<lfloor>rnd k * real len\<rfloor>"])
next
  case (Suc n)
  from Suc.prems(1) have here: "nat \<lfloor>rnd k * real len\<rfloor> = idx" by simp
  have "pick_loop rnd len idx (Suc k) idx = Some (nat \<lfloor>rnd (Suc k + n) * real len\<rfloor>)"
    using Suc.prems by (intro Suc.IH) auto
  then show ?case
    by (simp add: pick_loop.simps [of rnd len idx k idx] here)
qed

lemma pick_loop_diverges:
  assumes "\<forall>i\<ge>k. nat \<lfloor>rnd i * real len\<rfloor> = idx"
  shows "pick_loop rnd len idx k idx = None"
proof (cases "pick_loop rnd len idx k idx")
  case None
  then show ?thesis .
next
  case (Some y)
  from pick_loop_sound [OF Some] assms show ?thesis by auto
qed

lemma draw_in_range:
  assumes "0 \<le> r" "r < 1" "0 < len"
  shows "nat \<lfloor>r * real len\<rfloor> < len"
proof -
  have "r * real len < real len" using assms by simp
  then have "\<lfloor>r * real len\<rfloor> < int len" by (simp add: floor_less_iff)
  then show ?thesis using assms by linarith
qed

lemma draw_uniform:
  assumes "0 \<le> r" "0 < len"
  shows "nat \<lfloor>r * real len\<rfloor> = j \<longleftrightarrow> real j / real len \<le> r \<and> r < (real j + 1) / real len"
proof -
  have nn: "0 \<le> \<lfloor>r * real len\<rfloor>" using assms by simp
  have "nat \<lfloor>r * real len\<rfloor> = j \<longleftrightarrow> \<lfloor>r * real len\<rfloor> = int j"
    using nn by linarith
  also have "\<dots> \<longleftrightarrow> real j \<le> r * real len \<and> r * real len < real j + 1"
    by (simp add: floor_eq_iff)
  also have "\<dots> \<longleftrightarrow> real j / real len \<le> r \<and> r < (real j + 1) / real len"
    using assms by (simp add: pos_divide_le_eq pos_less_divide_eq)
  finally show ?thesis .
qed

section \<open>Claims on the numeric helpers\<close>

lemma clamp_01: "clamp (Fin v) (Fin 0) (Fin 1) = Fin (max 0 (min 1 v))"
  by (simp add: clamp_def)

lemma mount_tracks: "mount tracks = Inr on_mount"
  by (simp add: mount_def commit_def render_track_def lookup_def tracks_def initial_def
      load_effect_def run_load_def volume_effect_def on_mount_def clamp_def)

lemma reachable_on_mount: "reachable tracks on_mount"
  by (rule reachable.mounted) (rule mount_tracks)

lemma setVolume_synced:
  assumes "synced ts s"
  shows "\<exists>s'. setVolume ts (Fin v) s = Inr s' \<and>
           applied_volume (calls s') = Some (clamp (Fin v) (Fin 0) (Fin 1)) \<and>
           volume s' = Fin v \<and> status s' = status s"
  using assms
  by (auto simp: synced_def hooked_def setVolume_def then_commit_def commit_def render_track_def
      lookup_def load_effect_def deps_def volume_effect_def applied_volume_append clamp_def
      split: option.splits)

lemma digits_small: "n < 10 \<Longrightarrow> digits n = [digit_char n]"
  by (simp add: digits.simps)

lemma two_digits:
  assumes "s < 60"
  shows "padStart 2 (CHR ''0'') (String (int s)) = [digit_char (s div 10), digit_char (s mod 10)]"
proof (cases "s < 10")
  case True
  then show ?thesis
    by (simp add: padStart_def String_def string_of_nat_def digits_small digit_char_def)
next
  case False
  with assms have "s div 10 < 10" by simp
  with False assms show ?thesis
    by (simp add: padStart_def String_def string_of_nat_def digits.simps [of s] digits_small)
qed

lemma js_rem_60:
  assumes "0 \<le> x"
  shows "js_rem x 60 = x - 60 * of_int \<lfloor>x / 60\<rfloor>"
    and "0 \<le> js_rem x 60" and "js_rem x 60 < 60"
proof -
  show eq: "js_rem x 60 = x - 60 * of_int \<lfloor>x / 60\<rfloor>"
    using assms by (simp add: js_rem_def js_trunc_def)
  have "of_int \<lfloor>x / 60\<rfloor> \<le> x / 60" "x / 60 < of_int \<lfloor>x / 60\<rfloor> + 1"
    by linarith+
  then show "0 \<le> js_rem x 60" "js_rem x 60 < 60"
    unfolding eq by linarith+
qed

lemma formatTime_nonneg:
  assumes "0 \<le> x"
  shows "\<exists>s<60. formatTime (Fin x) =
           String \<lfloor>x / 60\<rfloor> @ '':'' @ [digit_char (s div 10), digit_char (s mod 10)] \<and>
           60 * real_of_int \<lfloor>x / 60\<rfloor> + real s \<le> x \<and>
           x < 60 * real_of_int \<lfloor>x / 60\<rfloor> + real s + 1"
proof -
  define s where "s = nat \<lfloor>js_rem x 60\<rfloor>"
  have nn: "0 \<le> \<lfloor>js_rem x 60\<rfloor>" using js_rem_60(2) [OF assms] by simp
  have lt: "\<lfloor>js_rem x 60\<rfloor> < (60::int)"
    using js_rem_60(3) [OF assms] by (simp add: floor_less_iff)
  have s60: "s < 60" using nn lt unfolding s_def by linarith
  have ints: "\<lfloor>js_rem x 60\<rfloor> = int s" using nn by (simp add: s_def)
  have fmt: "formatTime (Fin x) =
      String \<lfloor>x / 60\<rfloor> @ '':'' @ [digit_char (s div 10), digit_char (s mod 10)]"
    using assms by (simp add: formatTime_def ints two_digits [OF s60])
  have "real s \<le> js_rem x 60" "js_rem x 60 < real s + 1"
    using ints by linarith+
  then have "60 * real_of_int \<lfloor>x / 60\<rfloor> + real s \<le> x"
    "x < 60 * real_of_int \<lfloor>x / 60\<rfloor> + real s + 1"
    unfolding js_rem_60(1) [OF assms] by linarith+
  with s60 fmt show ?thesis by blast
qed

lemma minutes_decimal:
  fixes x :: real
  assumes "0 \<le> x" "x < 60 * 10 ^ 21"
  shows "String \<lfloor>x / 60\<rfloor> = digits (nat \<lfloor>x / 60\<rfloor>)"
proof -
  have "x / 60 < 10 ^ 21" using assms by simp
  then have "\<lfloor>x / 60\<rfloor> < (10 ^ 21 :: int)" by (simp add: floor_less_iff)
  moreover have "0 \<le> \<lfloor>x / 60\<rfloor>" using assms by simp
  ultimately have "nat \<lfloor>x / 60\<rfloor> < 10 ^ 21" by (simp add: nat_less_iff)
  with \<open>0 \<le> \<lfloor>x / 60\<rfloor>\<close> show ?thesis by (simp add: String_def string_of_nat_def)
qed

lemma formatTime_examples:
  "formatTime (Fin 0) = ''0:00''" "formatTime (Fin 65) = ''1:05''"
  "formatTime (Fin (- 3)) = ''0:00''" "formatTime NaN = ''0:00''"
  by (simp_all add: formatTime_def js_rem_def js_trunc_def String_def string_of_nat_def
      padStart_def digits.simps digit_char_def)

text \<open>
  C6. For every real \<^verbatim>\<open>v\<close>, after \<^verbatim>\<open>setVolume(v)\<close> the gain written to the audio element is
  \<^verbatim>\<open>clamp(v, 0, 1)\<close>, a number of the interval from 0 to 1: \<^verbatim>\<open>-0.5\<close> gives 0 and \<^verbatim>\<open>1.7\<close> gives 1.
  The volume effect does not look at the status, so this holds in every reachable state,
  and the status is left as it was.
\<close>

theorem setVolume_clamps_gain:
  assumes "reachable ts s"
  shows "(\<exists>s' g. setVolume ts (Fin v) s = Inr s' \<and>
            applied_volume (calls s') = Some (Fin g) \<and>
            Fin g = clamp (Fin v) (Fin 0) (Fin 1) \<and> 0 \<le> g \<and> g \<le> 1 \<and>
            status s' = status s) \<and>
         clamp (Fin (- (1 / 2))) (Fin 0) (Fin 1) = Fin 0 \<and>
         clamp (Fin (17 / 10)) (Fin 0) (Fin 1) = Fin 1"
proof -
  from setVolume_synced [OF reachable_synced [OF assms], of v]
  obtain s' where s': "setVolume ts (Fin v) s = Inr s'"
    "applied_volume (calls s') = Some (clamp (Fin v) (Fin 0) (Fin 1))"
    "status s' = status s"
    by blast
  have "0 \<le> max 0 (min 1 v) \<and> max 0 (min 1 v) \<le> 1" by simp
  with s' have "\<exists>s' g. setVolume ts (Fin v) s = Inr s' \<and>
            applied_volume (calls s') = Some (Fin g) \<and>
            Fin g = clamp (Fin v) (Fin 0) (Fin 1) \<and> 0 \<le> g \<and> g \<le> 1 \<and>
            status s' = status s"
    by (intro exI [of _ s'] exI [of _ "max 0 (min 1 v)"]) (simp add: clamp_01)
  then show ?thesis by (simp add: clamp_01)
qed

theorem setVolume_clamps_gain_witness:
  "reachable tracks on_mount \<and>
   (\<exists>s' g. setVolume tracks (Fin (17 / 10)) on_mount = Inr s' \<and>
            applied_volume (calls s') = Some (Fin g) \<and>
            Fin g = clamp (Fin (17 / 10)) (Fin 0) (Fin 1) \<and> 0 \<le> g \<and> g \<le> 1 \<and>
            status s' = status on_mount)"
  using reachable_on_mount
    conjunct1 [OF setVolume_clamps_gain [OF reachable_on_mount, of "17 / 10"]]
  by (rule conjI)

lemma digits_times_10:
  assumes "0 < n"
  shows "digits (n * 10) = digits n @ [CHR ''0'']"
  using assms by (subst digits.simps) (simp add: digit_char_def)

lemma digits_power_10: "digits (10 ^ k) = CHR ''1'' # replicate k (CHR ''0'')"
proof (induction k)
  case 0
  show ?case by (simp add: digits.simps digit_char_def)
next
  case (Suc k)
  have "digits (10 ^ Suc k) = digits (10 ^ k * 10)" by (simp add: mult.commute)
  also have "\<dots> = digits (10 ^ k) @ [CHR ''0'']" by (rule digits_times_10) simp
  finally show ?case by (simp add: Suc.IH replicate_append_same)
qed

lemma strip_zeros_replicate: "strip_zeros (replicate k (CHR ''0'')) = []"
  by (induction k) simp_all

lemma exponent_form_power_10:
  "exponent_form (10 ^ k) = CHR ''1'' # ''e+'' @ digits k"
  by (simp add: exponent_form_def Let_def digits_power_10 strip_zeros_replicate)

lemma quotient_6e22: "\<lfloor>(6 * 10 ^ 22 :: real) / 60\<rfloor> = 10 ^ 21"
proof -
  have "(6 * 10 ^ 22 :: real) / 60 = of_int (10 ^ 21)" by simp
  then show ?thesis by (simp only: floor_of_int)
qed

lemma remainder_6e22: "js_rem (6 * 10 ^ 22) 60 = 0"
  unfolding js_rem_def js_trunc_def
  by (simp add: quotient_6e22)

lemma formatTime_more_examples:
  "formatTime (Fin 7384) = ''123:04''" "formatTime (Fin (599 / 10)) = ''0:59''"
  by (simp_all add: formatTime_def js_rem_def js_trunc_def String_def string_of_nat_def
      padStart_def digits.simps digit_char_def)

text \<open>
  C7 as stated does not hold for every finite number of seconds that is not negative. For
  \<^verbatim>\<open>6e22\<close> seconds the minutes are \<^verbatim>\<open>1e21\<close>, which JavaScript prints in exponent notation, and
  the result is \<^verbatim>\<open>"1e+21:00"\<close>.
\<close>

theorem formatTime_prints_exponent_notation:
  "formatTime (Fin (6 * 10 ^ 22)) = ''1e+21:00''"
proof -
  have m: "String (10 ^ 21) = ''1e+21''"
  proof -
    have "string_of_nat (10 ^ 21) = exponent_form (10 ^ 21)"
      by (simp add: string_of_nat_def)
    also have "\<dots> = CHR ''1'' # ''e+'' @ digits 21" by (rule exponent_form_power_10)
    also have "\<dots> = ''1e+21''" by (simp add: digits.simps digit_char_def)
    finally have "string_of_nat (nat (10 ^ 21)) = ''1e+21''"
      by (simp add: nat_power_eq)
    then show ?thesis by (simp add: String_def)
  qed
  have s: "padStart 2 (CHR ''0'') (String 0) = ''00''"
    by (simp add: padStart_def String_def string_of_nat_def digits.simps digit_char_def)
  have "formatTime (Fin (6 * 10 ^ 22)) =
      String \<lfloor>(6 * 10 ^ 22 :: real) / 60\<rfloor> @ '':'' @
      padStart 2 (CHR ''0'') (String \<lfloor>js_rem (6 * 10 ^ 22) 60\<rfloor>)"
    by (simp add: formatTime_def Let_def)
  also have "\<dots> = ''1e+21:00''"
    by (simp only: quotient_6e22 remainder_6e22 floor_zero m s) simp
  finally show ?thesis .
qed

text \<open>
  C7, amended. \<^verbatim>\<open>formatTime\<close> returns \<^verbatim>\<open>"0:00"\<close> for \<^verbatim>\<open>NaN\<close>, for both infinities and for every
  negative number. For a number of seconds \<^verbatim>\<open>x\<close> from 0 up to, but not including, \<^verbatim>\<open>2^53\<close> it
  returns the whole minutes \<^verbatim>\<open>floor(x / 60)\<close> in decimal digits, a colon, and exactly two
  decimal digits: those of the whole seconds \<^verbatim>\<open>s\<close> left over, with \<^verbatim>\<open>s\<close> below 60. In
  particular 0 gives \<^verbatim>\<open>"0:00"\<close>, 65 gives \<^verbatim>\<open>"1:05"\<close>, -3 gives \<^verbatim>\<open>"0:00"\<close>, 7384 gives
  \<^verbatim>\<open>"123:04"\<close> and 59.9 gives \<^verbatim>\<open>"0:59"\<close>.
\<close>

theorem formatTime_renders_minutes_and_seconds_below_2_53:
  "formatTime NaN = ''0:00'' \<and> formatTime PosInf = ''0:00'' \<and> formatTime NegInf = ''0:00'' \<and>
   (y < 0 \<longrightarrow> formatTime (Fin y) = ''0:00'') \<and>
   (0 \<le> x \<and> x < 2 ^ 53 \<longrightarrow>
      (\<exists>s<60. formatTime (Fin x) =
                 digits (nat \<lfloor>x / 60\<rfloor>) @ '':'' @ [digit_char (s div 10), digit_char (s mod 10)] \<and>
               60 * real_of_int \<lfloor>x / 60\<rfloor> + real s \<le> x \<and>
               x < 60 * real_of_int \<lfloor>x / 60\<rfloor> + real s + 1)) \<and>
   formatTime (Fin 0) = ''0:00'' \<and> formatTime (Fin 65) = ''1:05'' \<and>
   formatTime (Fin (- 3)) = ''0:00'' \<and> formatTime (Fin 7384) = ''123:04'' \<and>
   formatTime (Fin (599 / 10)) = ''0:59''"
proof -
  have neg: "y < 0 \<longrightarrow> formatTime (Fin y) = ''0:00''"
    by (simp add: formatTime_def)
  have pos: "0 \<le> x \<and> x < 2 ^ 53 \<longrightarrow>
      (\<exists>s<60. formatTime (Fin x) =
                 digits (nat \<lfloor>x / 60\<rfloor>) @ '':'' @ [digit_char (s div 10), digit_char (s mod 10)] \<and>
               60 * real_of_int \<lfloor>x / 60\<rfloor> + real s \<le> x \<and>
               x < 60 * real_of_int \<lfloor>x / 60\<rfloor> + real s + 1)"
  proof (intro impI, elim conjE)
    assume x: "0 \<le> x" "x < 2 ^ 53"
    have "(2::real) ^ 53 < 60 * 10 ^ 21" by simp
    with x(2) have "x < 60 * 10 ^ 21" by linarith
    with minutes_decimal [OF x(1)] have "String \<lfloor>x / 60\<rfloor> = digits (nat \<lfloor>x / 60\<rfloor>)"
      by blast
    with formatTime_nonneg [OF x(1)]
    show "\<exists>s<60. formatTime (Fin x) =
                 digits (nat \<lfloor>x / 60\<rfloor>) @ '':'' @ [digit_char (s div 10), digit_char (s mod 10)] \<and>
               60 * real_of_int \<lfloor>x / 60\<rfloor> + real s \<le> x \<and>
               x < 60 * real_of_int \<lfloor>x / 60\<rfloor> + real s + 1"
      by simp
  qed
  have nf: "formatTime NaN = ''0:00''" "formatTime PosInf = ''0:00''" "formatTime NegInf = ''0:00''"
    by (simp_all add: formatTime_def)
  from nf neg pos formatTime_examples(1,2,3) formatTime_more_examples show ?thesis
    by blast
qed

theorem formatTime_renders_minutes_and_seconds_below_2_53_witness:
  "(0::real) \<le> 125 \<and> (125::real) < 2 ^ 53 \<and> (- 7 :: real) < 0 \<and>
   formatTime (Fin (- 7)) = ''0:00'' \<and>
   (\<exists>s<60. formatTime (Fin 125) =
              digits (nat \<lfloor>125 / 60 :: real\<rfloor>) @ '':'' @ [digit_char (s div 10), digit_char (s mod 10)] \<and>
            60 * real_of_int \<lfloor>125 / 60 :: real\<rfloor> + real s \<le> 125 \<and>
            125 < 60 * real_of_int \<lfloor>125 / 60 :: real\<rfloor> + real s + 1) \<and>
   formatTime (Fin 125) = ''2:05''"
proof -
  have a: "(0::real) \<le> 125" and b: "(125::real) < 2 ^ 53" and n: "(- 7 :: real) < 0"
    by simp_all
  note t = formatTime_renders_minutes_and_seconds_below_2_53 [of "- 7" 125]
  from t n have m: "formatTime (Fin (- 7)) = ''0:00''"
    by blast
  from t a b have c: "\<exists>s<60. formatTime (Fin 125) =
              digits (nat \<lfloor>125 / 60 :: real\<rfloor>) @ '':'' @ [digit_char (s div 10), digit_char (s mod 10)] \<and>
            60 * real_of_int \<lfloor>125 / 60 :: real\<rfloor> + real s \<le> 125 \<and>
            125 < 60 * real_of_int \<lfloor>125 / 60 :: real\<rfloor> + real s + 1"
    by blast
  have d: "formatTime (Fin 125) = ''2:05''"
    by (simp add: formatTime_def js_rem_def js_trunc_def String_def string_of_nat_def
        padStart_def digits.simps digit_char_def)
  from a b n m c d show ?thesis by blast
qed

section \<open>Claims on navigation\<close>

lemma next_index_seq:
  assumes "0 < length ts"
  shows "next_index ts rnd False idx i = Some ((i + 1) mod length ts)"
proof -
  have "(int i + 1) mod int (length ts) = int ((i + 1) mod length ts)"
    by (simp add: zmod_int ac_simps)
  then show ?thesis by (simp add: next_index_def)
qed

lemma prev_index_seq:
  assumes "0 < length ts"
  shows "\<exists>j. prev_index ts rnd False idx i = Some j \<and>
             int j = (int i - 1 + int (length ts)) mod int (length ts) \<and>
             j = (i + length ts - 1) mod length ts"
proof -
  have "int i - 1 + int (length ts) = int (i + length ts - 1)"
    using assms by linarith
  then have "(int i - 1 + int (length ts)) mod int (length ts) = int ((i + length ts - 1) mod length ts)"
    by (simp add: zmod_int)
  then show ?thesis by (simp add: prev_index_def)
qed

lemma then_commit_set_index:
  assumes "j < length ts"
  shows "\<exists>s'. then_commit ts (set_index (Some j) s) = Inr s' \<and> index s' = j \<and>
              isShuffle s' = isShuffle s \<and> isRepeat s' = isRepeat s"
proof -
  from commit_total [of "s\<lparr>index := j\<rparr>" ts] assms
  obtain s' where c: "commit ts (s\<lparr>index := j\<rparr>) = Inr s'" by auto
  from commit_frame [OF c] c show ?thesis
    by (simp add: then_commit_def set_index_def)
qed

lemma next_seq:
  assumes "\<not> isShuffle s" "index s < length ts"
  shows "\<exists>s'. next ts rnd s = Inr s' \<and> index s' = (index s + 1) mod length ts \<and>
              \<not> isShuffle s'"
proof -
  have pos: "0 < length ts" using assms(2) by linarith
  have "(index s + 1) mod length ts < length ts" using pos by (rule mod_less_divisor)
  from then_commit_set_index [OF this, of s] assms(1) show ?thesis
    by (auto simp: next_def next_index_seq [OF pos])
qed

lemma prev_seq:
  assumes "\<not> isShuffle s" "index s < length ts"
  shows "\<exists>s'. prev ts rnd s = Inr s' \<and>
              int (index s') = (int (index s) - 1 + int (length ts)) mod int (length ts) \<and>
              index s' = (index s + length ts - 1) mod length ts"
proof -
  have pos: "0 < length ts" using assms(2) by linarith
  from prev_index_seq [OF pos, of rnd "index s" "index s"]
  obtain j where j: "prev_index ts rnd False (index s) (index s) = Some j"
    "int j = (int (index s) - 1 + int (length ts)) mod int (length ts)"
    "j = (index s + length ts - 1) mod length ts"
    by blast
  have "j < length ts" unfolding j(3) using pos by (rule mod_less_divisor)
  from then_commit_set_index [OF this, of s] j assms(1) show ?thesis
    by (auto simp: prev_def)
qed

lemma next_times_seq:
  assumes "\<not> isShuffle s" "index s < length ts"
  shows "\<exists>s'. next_times ts rnd n s = Inr s' \<and> index s' = (index s + n) mod length ts"
  using assms
proof (induction n arbitrary: s)
  case 0
  then show ?case by simp
next
  case (Suc n)
  from next_seq [OF Suc.prems, of rnd]
  obtain s1 where s1: "next ts rnd s = Inr s1" "index s1 = (index s + 1) mod length ts"
    "\<not> isShuffle s1"
    by blast
  have "0 < length ts" using Suc.prems(2) by linarith
  then have "index s1 < length ts" unfolding s1(2) by (rule mod_less_divisor)
  from Suc.IH [OF s1(3) this]
  obtain s' where s': "next_times ts rnd n s1 = Inr s'" "index s' = (index s1 + n) mod length ts"
    by blast
  have "((index s + 1) mod length ts + n) mod length ts = (index s + Suc n) mod length ts"
    by (simp add: mod_add_left_eq)
  with s1 s' show ?case by simp
qed

text \<open>
  C3. With shuffle off and the index \<^verbatim>\<open>i\<close> inside a playlist of length \<^verbatim>\<open>L\<close>, \<^verbatim>\<open>next()\<close> moves the
  index to \<^verbatim>\<open>(i + 1) mod L\<close> and \<^verbatim>\<open>prev()\<close> moves it to \<^verbatim>\<open>(i - 1 + L) mod L\<close>; \<^verbatim>\<open>next()\<close> composed
  \<^verbatim>\<open>L\<close> times comes back to \<^verbatim>\<open>i\<close>. (The claim asks for this from length 2 on; it holds from
  length 1 on.)
\<close>

theorem sequential_navigation_is_modular:
  assumes "\<not> isShuffle s" "index s < length ts"
  shows "(\<exists>s'. next ts rnd s = Inr s' \<and> index s' = (index s + 1) mod length ts) \<and>
         (\<exists>s'. prev ts rnd s = Inr s' \<and>
                int (index s') = (int (index s) - 1 + int (length ts)) mod int (length ts)) \<and>
         (\<exists>s'. next_times ts rnd (length ts) s = Inr s' \<and> index s' = index s)"
proof (intro conjI)
  from next_seq [OF assms, of rnd]
  show "\<exists>s'. next ts rnd s = Inr s' \<and> index s' = (index s + 1) mod length ts"
    by blast
  from prev_seq [OF assms, of rnd]
  show "\<exists>s'. prev ts rnd s = Inr s' \<and>
          int (index s') = (int (index s) - 1 + int (length ts)) mod int (length ts)"
    by blast
  from next_times_seq [OF assms, of rnd "length ts"] assms(2)
  show "\<exists>s'. next_times ts rnd (length ts) s = Inr s' \<and> index s' = index s"
    by simp
qed

theorem sequential_navigation_is_modular_witness:
  "\<not> isShuffle on_mount \<and> index on_mount < length tracks \<and>
   (\<exists>s'. next tracks draws_0 on_mount = Inr s' \<and>
          index s' = (index on_mount + 1) mod length tracks) \<and>
   (\<exists>s'. prev tracks draws_0 on_mount = Inr s' \<and>
          int (index s') = (int (index on_mount) - 1 + int (length tracks)) mod int (length tracks)) \<and>
   (\<exists>s'. next_times tracks draws_0 (length tracks) on_mount = Inr s' \<and>
          index s' = index on_mount)"
proof -
  have a: "\<not> isShuffle on_mount" and b: "index on_mount < length tracks"
    by (simp_all add: on_mount_def tracks_def)
  from a b sequential_navigation_is_modular [OF a b, of draws_0] show ?thesis
    by (intro conjI) blast+
qed

lemma next_shuffle:
  assumes "isShuffle s"
  shows "next ts r s = then_commit ts (set_index (pickRandomNext ts r (index s)) s)"
    and "prev ts r s = next ts r s"
  using assms by (simp_all add: next_def prev_def next_index_def prev_index_def)

lemma next_shuffle_picks:
  assumes "isShuffle s" "1 < length ts"
    and "\<forall>k. 0 \<le> rnd k \<and> rnd k < 1"
    and "\<forall>i<n. nat \<lfloor>rnd i * real (length ts)\<rfloor> = index s"
    and "nat \<lfloor>rnd n * real (length ts)\<rfloor> \<noteq> index s"
  shows "\<exists>s'. next ts rnd s = Inr s' \<and> index s' = nat \<lfloor>rnd n * real (length ts)\<rfloor> \<and>
              index s' \<noteq> index s \<and> index s' < length ts"
proof -
  let ?j = "nat \<lfloor>rnd n * real (length ts)\<rfloor>"
  have "pick_loop rnd (length ts) (index s) 0 (index s) = Some (nat \<lfloor>rnd (0 + n) * real (length ts)\<rfloor>)"
    using assms(4,5) by (intro pick_loop_first) simp_all
  then have pick: "pickRandomNext ts rnd (index s) = Some ?j"
    using assms(2) by (simp add: pickRandomNext_def)
  have pos: "0 < length ts" using assms(2) by linarith
  have lt: "?j < length ts"
    using assms(3) pos by (intro draw_in_range) blast+
  from then_commit_set_index [OF lt, of s] lt assms(5) show ?thesis
    by (auto simp: next_shuffle(1) [OF assms(1)] pick)
qed

lemma next_shuffle_differs:
  assumes "isShuffle s" "1 < length ts" "next ts r s = Inr s'"
  shows "index s' \<noteq> index s"
proof -
  from assms(3) obtain j where j: "pickRandomNext ts r (index s) = Some j"
    and c: "commit ts (s\<lparr>index := j\<rparr>) = Inr s'"
    by (auto simp: next_shuffle(1) [OF assms(1)] then_commit_def set_index_def
        split: option.splits)
  from j assms(2) have "pick_loop r (length ts) (index s) 0 (index s) = Some j"
    by (simp add: pickRandomNext_def)
  from pick_loop_sound [OF this] have "j \<noteq> index s" by simp
  with commit_frame [OF c] show ?thesis by simp
qed

lemma next_shuffle_diverges:
  assumes "isShuffle s" "1 < length ts"
    and "\<forall>i. nat \<lfloor>r i * real (length ts)\<rfloor> = index s"
  shows "next ts r s = Inl Diverges"
proof -
  have "pick_loop r (length ts) (index s) 0 (index s) = None"
    using assms(3) by (intro pick_loop_diverges) simp
  with assms(2) show ?thesis
    by (simp add: next_shuffle(1) [OF assms(1)] pickRandomNext_def set_index_def then_commit_def)
qed

lemma next_shuffle_single:
  assumes "isShuffle s" "index s < length ts" "length ts = 1"
  shows "\<exists>s'. next ts r s = Inr s' \<and> index s' = index s"
proof -
  have "pickRandomNext ts r (index s) = Some (index s)"
    using assms(3) by (simp add: pickRandomNext_def)
  with then_commit_set_index [OF assms(2), of s] show ?thesis
    by (auto simp: next_shuffle(1) [OF assms(1)])
qed

text \<open>
  C4. Shuffle on, in a playlist of more than one track: \<^verbatim>\<open>next()\<close> draws indices
  \<^verbatim>\<open>floor(Math.random() * length)\<close> until one differs from the current index and moves there
  (if the first draw that differs is the \<^verbatim>\<open>n\<close>-th, the new index is that draw); whatever the
  draws, a call that returns has changed the index; the call does not return when every draw
  gives the current index. Each index is the image of an interval of draws of width
  \<^verbatim>\<open>1 / length\<close>, which is what makes a uniform \<^verbatim>\<open>Math.random\<close> a uniform choice (the
  distribution itself is not modelled). In a playlist of one track the index stays.
  \<^verbatim>\<open>prev()\<close> does exactly what \<^verbatim>\<open>next()\<close> does.
\<close>

theorem shuffle_navigation:
  fixes rnd rnd' :: "nat \<Rightarrow> real"
  assumes "isShuffle s" "index s < length ts" "1 < length ts"
    and "\<forall>k. 0 \<le> rnd k \<and> rnd k < 1"
    and "\<forall>i<n. nat \<lfloor>rnd i * real (length ts)\<rfloor> = index s"
    and "nat \<lfloor>rnd n * real (length ts)\<rfloor> \<noteq> index s"
    and "\<forall>i. nat \<lfloor>rnd' i * real (length ts)\<rfloor> = index s"
    and "isShuffle s1" "index s1 < length ts1" "length ts1 = 1"
  shows "(\<exists>s'. next ts rnd s = Inr s' \<and> index s' = nat \<lfloor>rnd n * real (length ts)\<rfloor> \<and>
               index s' \<noteq> index s \<and> index s' < length ts) \<and>
         (\<forall>r s'. next ts r s = Inr s' \<longrightarrow> index s' \<noteq> index s) \<and>
         next ts rnd' s = Inl Diverges \<and>
         (\<exists>s'. next ts1 r s1 = Inr s' \<and> index s' = index s1) \<and>
         prev ts r s = next ts r s \<and> prev ts1 r s1 = next ts1 r s1 \<and>
         (\<forall>j. nat \<lfloor>rnd k * real (length ts)\<rfloor> = j \<longleftrightarrow>
                real j / real (length ts) \<le> rnd k \<and> rnd k < (real j + 1) / real (length ts))"
proof (intro conjI)
  show "\<exists>s'. next ts rnd s = Inr s' \<and> index s' = nat \<lfloor>rnd n * real (length ts)\<rfloor> \<and>
               index s' \<noteq> index s \<and> index s' < length ts"
    using assms(1,3,4,5,6) by (rule next_shuffle_picks)
  show "\<forall>r s'. next ts r s = Inr s' \<longrightarrow> index s' \<noteq> index s"
    using next_shuffle_differs [OF assms(1,3)] by blast
  show "next ts rnd' s = Inl Diverges"
    using assms(1,3,7) by (rule next_shuffle_diverges)
  show "\<exists>s'. next ts1 r s1 = Inr s' \<and> index s' = index s1"
    using assms(8,9,10) by (rule next_shuffle_single)
  show "prev ts r s = next ts r s"
    using assms(1) by (rule next_shuffle(2))
  show "prev ts1 r s1 = next ts1 r s1"
    using assms(8) by (rule next_shuffle(2))
  have "0 < length ts" using assms(3) by linarith
  moreover have "0 \<le> rnd k" using assms(4) by blast
  ultimately show "\<forall>j. nat \<lfloor>rnd k * real (length ts)\<rfloor> = j \<longleftrightarrow>
                real j / real (length ts) \<le> rnd k \<and> rnd k < (real j + 1) / real (length ts)"
    using draw_uniform [of "rnd k" "length ts"] by blast
qed

theorem shuffle_navigation_witness:
  "isShuffle (on_mount\<lparr>isShuffle := True\<rparr>) \<and>
   index (on_mount\<lparr>isShuffle := True\<rparr>) < length tracks \<and> 1 < length tracks \<and>
   (\<forall>k. 0 \<le> draws_0_then_34 k \<and> draws_0_then_34 k < 1) \<and>
   nat \<lfloor>draws_0_then_34 0 * real (length tracks)\<rfloor> = index (on_mount\<lparr>isShuffle := True\<rparr>) \<and>
   nat \<lfloor>draws_0_then_34 1 * real (length tracks)\<rfloor> \<noteq> index (on_mount\<lparr>isShuffle := True\<rparr>) \<and>
   (\<forall>i. nat \<lfloor>draws_0 i * real (length tracks)\<rfloor> = index (on_mount\<lparr>isShuffle := True\<rparr>)) \<and>
   length [tracks ! 0] = 1 \<and>
   (\<exists>s'. next tracks draws_0_then_34 (on_mount\<lparr>isShuffle := True\<rparr>) = Inr s' \<and> index s' = 1) \<and>
   next tracks draws_0 (on_mount\<lparr>isShuffle := True\<rparr>) = Inl Diverges \<and>
   (\<exists>s'. next [tracks ! 0] draws_0 (on_mount\<lparr>isShuffle := True\<rparr>) = Inr s' \<and> index s' = 0) \<and>
   prev tracks draws_0_then_34 (on_mount\<lparr>isShuffle := True\<rparr>) =
     next tracks draws_0_then_34 (on_mount\<lparr>isShuffle := True\<rparr>)"
proof -
  let ?s = "on_mount\<lparr>isShuffle := True\<rparr>"
  have h1: "isShuffle ?s" by simp
  have h2: "index ?s < length tracks" by (simp add: on_mount_def tracks_def)
  have h3: "1 < length tracks" by (simp add: tracks_def)
  have h4: "\<forall>k. 0 \<le> draws_0_then_34 k \<and> draws_0_then_34 k < 1"
    by (simp add: draws_0_then_34_def)
  have h5: "\<forall>i<1. nat \<lfloor>draws_0_then_34 i * real (length tracks)\<rfloor> = index ?s"
    by (simp add: draws_0_then_34_def on_mount_def)
  have h6: "nat \<lfloor>draws_0_then_34 1 * real (length tracks)\<rfloor> \<noteq> index ?s"
    by (simp add: draws_0_then_34_def on_mount_def tracks_def)
  have h7: "\<forall>i. nat \<lfloor>draws_0 i * real (length tracks)\<rfloor> = index ?s"
    by (simp add: draws_0_def on_mount_def)
  have h9: "index ?s < length [tracks ! 0]" by (simp add: on_mount_def)
  have h10: "length [tracks ! 0] = 1" by simp
  have v: "nat \<lfloor>draws_0_then_34 1 * real (length tracks)\<rfloor> = 1"
    by (simp add: draws_0_then_34_def tracks_def)
  have i0: "index ?s = 0" by (simp add: on_mount_def)
  note t = shuffle_navigation [OF h1 h2 h3 h4 h5 h6 h7 h1 h9 h10, of draws_0 1]
  from t have c1: "\<exists>s'. next tracks draws_0_then_34 ?s = Inr s' \<and> index s' = 1"
    unfolding v by blast
  from t have c2: "next tracks draws_0 ?s = Inl Diverges" by blast
  from t have c3: "\<exists>s'. next [tracks ! 0] draws_0 ?s = Inr s' \<and> index s' = 0"
    unfolding i0 by blast
  have c4: "prev tracks draws_0_then_34 ?s = next tracks draws_0_then_34 ?s"
    using shuffle_navigation [OF h1 h2 h3 h4 h5 h6 h7 h1 h9 h10, of draws_0_then_34 1] by blast
  have h5': "nat \<lfloor>draws_0_then_34 0 * real (length tracks)\<rfloor> = index ?s"
    by (simp add: draws_0_then_34_def on_mount_def)
  from h1 h2 h3 h4 h5' h6 h7 h10 c1 c2 c3 c4 show ?thesis by blast
qed

section \<open>Claims on the commands\<close>

lemma clamp_unit:
  assumes "p \<noteq> NaN"
  shows "\<exists>c. clamp p (Fin 0) (Fin 1) = Fin c \<and> 0 \<le> c \<and> c \<le> 1"
  using assms by (cases p) (simp_all add: clamp_def)

lemma seekTo_noop:
  assumes "synced ts s" "\<not> truthy (duration s)"
  shows "seekTo ts p s = Inr s"
  using assms by (simp add: seekTo_def then_commit_def commit_synced)

lemma synced_seek:
  assumes "synced ts s"
  shows "synced ts (s\<lparr>calls := calls s @ [SetCurrentTime t], current := t\<rparr>)"
  using assms
  by (auto simp: synced_def hooked_def applied_volume_append split: option.splits)

lemma togglePlay_paused:
  assumes "synced ts s" "a_paused a"
  shows "togglePlay ts a s =
           Inr (s\<lparr>status := Loading, calls := calls s @ [Play],
                  pending := pending s @ [RevertToPaused]\<rparr>)"
proof -
  have "synced ts (s\<lparr>status := Loading, calls := calls s @ [Play],
                  pending := pending s @ [RevertToPaused]\<rparr>)"
    using assms(1)
    by (auto simp: synced_def hooked_def applied_volume_append split: option.splits)
  from commit_synced [OF this] assms(2) show ?thesis
    by (simp add: togglePlay_def then_commit_def)
qed

lemma play_rejected:
  assumes "synced ts s" "k < length (pending s)" "pending s ! k = RevertToPaused"
  shows "play_settled ts k True s =
           Inr (s\<lparr>status := Paused, pending := take k (pending s) @ drop (Suc k) (pending s)\<rparr>)"
proof -
  have "synced ts (s\<lparr>status := Paused, pending := take k (pending s) @ drop (Suc k) (pending s)\<rparr>)"
    using assms(1)
    by (auto simp: synced_def hooked_def split: option.splits)
  from commit_synced [OF this] assms(2,3) show ?thesis
    by (simp add: play_settled_def then_commit_def Let_def)
qed

lemma toggleRepeat_synced:
  assumes "synced ts s"
  shows "toggleRepeat ts s =
           Inr (s\<lparr>isRepeat := \<not> isRepeat s, status := Loading, current := Fin 0,
                  duration := Fin 0,
                  calls := calls s @ [SetSrc (audioUrl (ts ! index s)), Load],
                  listeners := [\<lparr>c_track = ts ! index s, c_index = index s,
                                 c_isRepeat = \<not> isRepeat s, c_isShuffle = isShuffle s\<rparr>],
                  load_hook := Some \<lparr>c_track = ts ! index s, c_index = index s,
                                 c_isRepeat = \<not> isRepeat s, c_isShuffle = isShuffle s\<rparr>\<rparr>)"
  using assms
  by (auto simp: synced_def hooked_def toggleRepeat_def then_commit_def commit_def
      render_track_def lookup_def load_effect_def deps_def run_load_def cleanup_def
      volume_effect_def split: option.splits)




lemma synced_on_mount: "synced tracks on_mount"
  by (rule reachable_synced) (rule reachable_on_mount)

lemma deliver_loadedmetadata:
  assumes "synced ts s" "load_hook s = Some c"
  shows "deliver ts rnd Ev_loadedmetadata a s =
           Inr (s\<lparr>duration := js_or (a_duration a) (hint_or_0 (c_track c)), status := Paused\<rparr>)"
proof -
  have l: "listeners s = [c]"
    using assms by (simp add: synced_def hooked_def)
  have "synced ts (s\<lparr>duration := js_or (a_duration a) (hint_or_0 (c_track c)), status := Paused\<rparr>)"
    using assms(1) by (auto simp: synced_def hooked_def split: option.splits)
  from commit_synced [OF this] show ?thesis
    by (simp add: deliver_def l handle_def onLoaded_def then_commit_def)
qed

lemma reachable_metadata_loaded: "reachable tracks metadata_loaded"
proof -
  have "load_hook on_mount =
      Some \<lparr>c_track = tracks ! 0, c_index = 0, c_isRepeat = False, c_isShuffle = False\<rparr>"
    by (simp add: on_mount_def)
  from deliver_loadedmetadata [OF synced_on_mount this, of draws_0 el_paused]
  have "step tracks draws_0 el_paused (Event Ev_loadedmetadata) on_mount = Inr metadata_loaded"
    by (simp add: step_def metadata_loaded_def el_paused_def js_or_def)
  with reachable_on_mount show ?thesis by (rule reachable.stepped)
qed

lemma reachable_play_requested: "reachable tracks play_requested"
proof -
  have "a_paused el_paused" by (simp add: el_paused_def)
  from togglePlay_paused [OF synced_on_mount this]
  have "step tracks draws_0 el_paused TogglePlay on_mount = Inr play_requested"
    by (simp add: step_def play_requested_def)
  with reachable_on_mount show ?thesis by (rule reachable.stepped)
qed









lemma clamp_cases:
  "clamp (Fin x) (Fin 0) (Fin 1) = Fin (max 0 (min 1 x))"
  "clamp PosInf (Fin 0) (Fin 1) = Fin 1"
  "clamp NegInf (Fin 0) (Fin 1) = Fin 0"
  "clamp NaN (Fin 0) (Fin 1) = NaN"
  by (simp_all add: clamp_def)

lemma seekTo_finite:
  assumes "synced ts s" "duration s = Fin d" "d \<noteq> 0" "clamp p (Fin 0) (Fin 1) = Fin c"
  shows "seekTo ts p s =
           Inr (s\<lparr>calls := calls s @ [SetCurrentTime (Fin (c * d))], current := Fin (c * d)\<rparr>)"
proof -
  have "seekTo ts p s =
      commit ts (s\<lparr>calls := calls s @ [SetCurrentTime (Fin (c * d))], current := Fin (c * d)\<rparr>)"
    using assms(2,3,4) by (simp add: seekTo_def then_commit_def Let_def)
  also have "\<dots> = Inr (s\<lparr>calls := calls s @ [SetCurrentTime (Fin (c * d))], current := Fin (c * d)\<rparr>)"
    by (rule commit_synced) (rule synced_seek [OF assms(1)])
  finally show ?thesis .
qed

lemma seekTo_NaN:
  assumes "truthy (duration s)"
  shows "seekTo ts NaN s = Inl (TypeError NonFiniteValue)"
  using assms by (simp add: seekTo_def clamp_cases Let_def)

lemma seekTo_unbounded:
  assumes "duration s = PosInf \<or> duration s = NegInf"
  shows "seekTo ts p s = Inl (TypeError NonFiniteValue)"
proof -
  have "\<not> isFinite (js_mul (clamp p (Fin 0) (Fin 1)) (duration s))"
    using assms by (cases "clamp p (Fin 0) (Fin 1)") (auto split: if_splits)
  with assms show ?thesis by (auto simp: seekTo_def Let_def)
qed

lemma clamped_position_bounds:
  fixes x d :: real
  assumes "0 < d"
  shows "0 \<le> max 0 (min 1 x) * d" "max 0 (min 1 x) * d \<le> d"
proof -
  have c: "0 \<le> max 0 (min 1 x)" "max 0 (min 1 x) \<le> 1" by simp_all
  show "0 \<le> max 0 (min 1 x) * d" using c(1) assms by simp
  show "max 0 (min 1 x) * d \<le> d" using c assms by (simp add: mult_left_le_one_le)
qed

lemma reachable_live_stream: "reachable tracks live_stream"
proof -
  have "load_hook on_mount =
      Some \<lparr>c_track = tracks ! 0, c_index = 0, c_isRepeat = False, c_isShuffle = False\<rparr>"
    by (simp add: on_mount_def)
  from deliver_loadedmetadata [OF synced_on_mount this, of draws_0 el_live]
  have "step tracks draws_0 el_live (Event Ev_loadedmetadata) on_mount = Inr live_stream"
    by (simp add: step_def live_stream_def el_live_def js_or_def)
  with reachable_on_mount show ?thesis by (rule reachable.stepped)
qed




text \<open>
  C5 as stated does not hold for every \<^verbatim>\<open>p\<close> and every known duration. With the duration
  known to be 200, \<^verbatim>\<open>seekTo(NaN)\<close> computes \<^verbatim>\<open>t = NaN\<close>; with a duration of \<^verbatim>\<open>Infinity\<close>, which
  the element reports for a stream, \<^verbatim>\<open>seekTo(0.5)\<close> computes \<^verbatim>\<open>t = Infinity\<close>. In both cases the
  write to \<^verbatim>\<open>a.currentTime\<close> throws: nothing is sought and \<^verbatim>\<open>current\<close> is not set to \<^verbatim>\<open>t\<close>.
\<close>

theorem seekTo_throws_on_NaN_and_on_unbounded_duration:
  "reachable tracks metadata_loaded \<and> duration metadata_loaded = Fin 200 \<and>
   js_mul (clamp NaN (Fin 0) (Fin 1)) (duration metadata_loaded) = NaN \<and>
   seekTo tracks NaN metadata_loaded = Inl (TypeError NonFiniteValue) \<and>
   reachable tracks live_stream \<and> duration live_stream = PosInf \<and>
   js_mul (clamp (Fin (1 / 2)) (Fin 0) (Fin 1)) (duration live_stream) = PosInf \<and>
   seekTo tracks (Fin (1 / 2)) live_stream = Inl (TypeError NonFiniteValue)"
proof -
  have a: "duration metadata_loaded = Fin 200" by (simp add: metadata_loaded_def)
  have b: "duration live_stream = PosInf" by (simp add: live_stream_def)
  have c: "js_mul (clamp NaN (Fin 0) (Fin 1)) (duration metadata_loaded) = NaN"
    by (simp add: clamp_cases)
  have d: "js_mul (clamp (Fin (1 / 2)) (Fin 0) (Fin 1)) (duration live_stream) = PosInf"
    by (simp add: clamp_cases b)
  have e: "seekTo tracks NaN metadata_loaded = Inl (TypeError NonFiniteValue)"
    by (rule seekTo_NaN) (simp add: a)
  have f: "seekTo tracks (Fin (1 / 2)) live_stream = Inl (TypeError NonFiniteValue)"
    by (rule seekTo_unbounded) (simp add: b)
  from reachable_metadata_loaded reachable_live_stream a b c d e f show ?thesis by blast
qed

text \<open>
  C5, amended. In a reachable state \<^verbatim>\<open>seekTo(p)\<close> changes nothing when the duration is falsy,
  in particular when it is 0 (unknown). When the duration is a finite number \<^verbatim>\<open>d\<close> other than
  0 and \<^verbatim>\<open>p\<close> is a finite number \<^verbatim>\<open>x\<close>, it writes \<^verbatim>\<open>t = max(0, min(1, x)) * d\<close> to
  \<^verbatim>\<open>a.currentTime\<close>, sets \<^verbatim>\<open>current\<close> to \<^verbatim>\<open>t\<close> in the same step and changes nothing else; for
  \<^verbatim>\<open>p = Infinity\<close> the position is \<^verbatim>\<open>d\<close> and for \<^verbatim>\<open>p = -Infinity\<close> it is 0. When \<^verbatim>\<open>d\<close> is positive,
  \<^verbatim>\<open>t\<close> lies between 0 and \<^verbatim>\<open>d\<close>. For \<^verbatim>\<open>p = NaN\<close>, and for every \<^verbatim>\<open>p\<close> when the duration is
  infinite, the call throws and the state stays as it was.
\<close>

theorem seekTo_seeks_to_the_clamped_position:
  assumes "reachable ts s"
  shows "(\<not> truthy (duration s) \<longrightarrow> seekTo ts p s = Inr s) \<and>
         (duration s = Fin 0 \<longrightarrow> seekTo ts p s = Inr s) \<and>
         (duration s = Fin d \<and> d \<noteq> 0 \<longrightarrow>
            seekTo ts (Fin x) s =
              Inr (s\<lparr>calls := calls s @ [SetCurrentTime (Fin (max 0 (min 1 x) * d))],
                     current := Fin (max 0 (min 1 x) * d)\<rparr>) \<and>
            seekTo ts PosInf s =
              Inr (s\<lparr>calls := calls s @ [SetCurrentTime (Fin d)], current := Fin d\<rparr>) \<and>
            seekTo ts NegInf s =
              Inr (s\<lparr>calls := calls s @ [SetCurrentTime (Fin 0)], current := Fin 0\<rparr>) \<and>
            seekTo ts NaN s = Inl (TypeError NonFiniteValue)) \<and>
         (0 < d \<longrightarrow> 0 \<le> max 0 (min 1 x) * d \<and> max 0 (min 1 x) * d \<le> d) \<and>
         (duration s = PosInf \<or> duration s = NegInf \<longrightarrow>
            seekTo ts p s = Inl (TypeError NonFiniteValue))"
proof -
  note sy = reachable_synced [OF assms]
  have a: "\<not> truthy (duration s) \<longrightarrow> seekTo ts p s = Inr s"
    using seekTo_noop [OF sy] by blast
  have b: "duration s = Fin 0 \<longrightarrow> seekTo ts p s = Inr s"
    using seekTo_noop [OF sy, of p] by simp
  have c: "duration s = Fin d \<and> d \<noteq> 0 \<longrightarrow>
            seekTo ts (Fin x) s =
              Inr (s\<lparr>calls := calls s @ [SetCurrentTime (Fin (max 0 (min 1 x) * d))],
                     current := Fin (max 0 (min 1 x) * d)\<rparr>) \<and>
            seekTo ts PosInf s =
              Inr (s\<lparr>calls := calls s @ [SetCurrentTime (Fin d)], current := Fin d\<rparr>) \<and>
            seekTo ts NegInf s =
              Inr (s\<lparr>calls := calls s @ [SetCurrentTime (Fin 0)], current := Fin 0\<rparr>) \<and>
            seekTo ts NaN s = Inl (TypeError NonFiniteValue)"
  proof (intro impI, elim conjE)
    assume d: "duration s = Fin d" "d \<noteq> 0"
    have t: "truthy (duration s)" using d by simp
    show "seekTo ts (Fin x) s =
              Inr (s\<lparr>calls := calls s @ [SetCurrentTime (Fin (max 0 (min 1 x) * d))],
                     current := Fin (max 0 (min 1 x) * d)\<rparr>) \<and>
            seekTo ts PosInf s =
              Inr (s\<lparr>calls := calls s @ [SetCurrentTime (Fin d)], current := Fin d\<rparr>) \<and>
            seekTo ts NegInf s =
              Inr (s\<lparr>calls := calls s @ [SetCurrentTime (Fin 0)], current := Fin 0\<rparr>) \<and>
            seekTo ts NaN s = Inl (TypeError NonFiniteValue)"
      using seekTo_finite [OF sy d clamp_cases(1), of x]
        seekTo_finite [OF sy d clamp_cases(2)]
        seekTo_finite [OF sy d clamp_cases(3)]
        seekTo_NaN [OF t, of ts]
      by simp
  qed
  have e: "0 < d \<longrightarrow> 0 \<le> max 0 (min 1 x) * d \<and> max 0 (min 1 x) * d \<le> d"
    using clamped_position_bounds [of d x] by blast
  have f: "duration s = PosInf \<or> duration s = NegInf \<longrightarrow>
            seekTo ts p s = Inl (TypeError NonFiniteValue)"
    using seekTo_unbounded [of s ts p] by blast
  from a b c e f show ?thesis by blast
qed

theorem seekTo_seeks_to_the_clamped_position_witness:
  "reachable tracks on_mount \<and> duration on_mount = Fin 0 \<and> \<not> truthy (duration on_mount) \<and>
   seekTo tracks (Fin (1 / 2)) on_mount = Inr on_mount \<and>
   reachable tracks metadata_loaded \<and> duration metadata_loaded = Fin 200 \<and>
   (200::real) \<noteq> 0 \<and> (0::real) < 200 \<and>
   seekTo tracks (Fin (1 / 4)) metadata_loaded =
     Inr (metadata_loaded\<lparr>calls := calls metadata_loaded @ [SetCurrentTime (Fin 50)],
                          current := Fin 50\<rparr>) \<and>
   seekTo tracks (Fin (3 / 2)) metadata_loaded =
     Inr (metadata_loaded\<lparr>calls := calls metadata_loaded @ [SetCurrentTime (Fin 200)],
                          current := Fin 200\<rparr>) \<and>
   seekTo tracks (Fin (- 1)) metadata_loaded =
     Inr (metadata_loaded\<lparr>calls := calls metadata_loaded @ [SetCurrentTime (Fin 0)],
                          current := Fin 0\<rparr>) \<and>
   seekTo tracks NaN metadata_loaded = Inl (TypeError NonFiniteValue) \<and>
   reachable tracks live_stream \<and> duration live_stream = PosInf \<and>
   seekTo tracks (Fin 1) live_stream = Inl (TypeError NonFiniteValue)"
proof -
  have a: "duration on_mount = Fin 0" "\<not> truthy (duration on_mount)"
    by (simp_all add: on_mount_def)
  have b: "duration metadata_loaded = Fin 200" by (simp add: metadata_loaded_def)
  have c: "(200::real) \<noteq> 0" "(0::real) < 200" by simp_all
  have l: "duration live_stream = PosInf" by (simp add: live_stream_def)
  from seekTo_seeks_to_the_clamped_position [OF reachable_on_mount, of "Fin (1 / 2)"] a
  have d: "seekTo tracks (Fin (1 / 2)) on_mount = Inr on_mount" by blast
  note t = seekTo_seeks_to_the_clamped_position [OF reachable_metadata_loaded, of _ 200]
  from t [of _ "1 / 4"] b c
  have e: "seekTo tracks (Fin (1 / 4)) metadata_loaded =
     Inr (metadata_loaded\<lparr>calls := calls metadata_loaded @ [SetCurrentTime (Fin 50)],
                          current := Fin 50\<rparr>)"
    by simp
  from t [of _ "3 / 2"] b c
  have f: "seekTo tracks (Fin (3 / 2)) metadata_loaded =
     Inr (metadata_loaded\<lparr>calls := calls metadata_loaded @ [SetCurrentTime (Fin 200)],
                          current := Fin 200\<rparr>)"
    by simp
  from t [of _ "- 1"] b c
  have g: "seekTo tracks (Fin (- 1)) metadata_loaded =
     Inr (metadata_loaded\<lparr>calls := calls metadata_loaded @ [SetCurrentTime (Fin 0)],
                          current := Fin 0\<rparr>)"
    by simp
  from t [of _ 0] b c
  have h: "seekTo tracks NaN metadata_loaded = Inl (TypeError NonFiniteValue)"
    by blast
  from seekTo_seeks_to_the_clamped_position [OF reachable_live_stream, of "Fin 1"] l
  have i: "seekTo tracks (Fin 1) live_stream = Inl (TypeError NonFiniteValue)"
    by blast
  from reachable_on_mount a d reachable_metadata_loaded b c e f g h reachable_live_stream l i
  show ?thesis by blast
qed

text \<open>
  C8. \<^verbatim>\<open>togglePlay\<close> on a paused element sets the status to loading and calls \<^verbatim>\<open>a.play()\<close>,
  nothing else. When that promise rejects, at whatever later moment, the status becomes
  paused and the promise leaves the queue; no call is made on the element (so no retry) and
  no other field of the state changes.
\<close>

theorem togglePlay_rejection_reverts_to_paused:
  assumes "reachable ts s" "a_paused a"
    and "reachable ts s2" "k < length (pending s2)" "pending s2 ! k = RevertToPaused"
  shows "togglePlay ts a s =
           Inr (s\<lparr>status := Loading, calls := calls s @ [Play],
                  pending := pending s @ [RevertToPaused]\<rparr>) \<and>
         play_settled ts k True s2 =
           Inr (s2\<lparr>status := Paused,
                   pending := take k (pending s2) @ drop (Suc k) (pending s2)\<rparr>)"
  using togglePlay_paused [OF reachable_synced [OF assms(1)] assms(2)]
    play_rejected [OF reachable_synced [OF assms(3)] assms(4,5)]
  by (rule conjI)

theorem togglePlay_rejection_reverts_to_paused_witness:
  "reachable tracks on_mount \<and> a_paused el_paused \<and> reachable tracks play_requested \<and>
   0 < length (pending play_requested) \<and> pending play_requested ! 0 = RevertToPaused \<and>
   togglePlay tracks el_paused on_mount = Inr play_requested \<and>
   play_settled tracks 0 True play_requested =
     Inr (on_mount\<lparr>status := Paused, calls := calls on_mount @ [Play]\<rparr>)"
proof -
  have a: "a_paused el_paused" by (simp add: el_paused_def)
  have b: "0 < length (pending play_requested)" "pending play_requested ! 0 = RevertToPaused"
    by (simp_all add: play_requested_def on_mount_def)
  note t = togglePlay_rejection_reverts_to_paused
    [OF reachable_on_mount a reachable_play_requested b]
  from t have c: "togglePlay tracks el_paused on_mount = Inr play_requested"
    by (simp add: play_requested_def)
  from t have d: "play_settled tracks 0 True play_requested =
     Inr (on_mount\<lparr>status := Paused, calls := calls on_mount @ [Play]\<rparr>)"
    by (simp add: play_requested_def on_mount_def)
  from reachable_on_mount a reachable_play_requested b c d show ?thesis by blast
qed

text \<open>
  C10. Toggling repeat in a reachable state runs the load effect again for the unchanged
  track: the status becomes loading, \<^verbatim>\<open>current\<close> and \<^verbatim>\<open>duration\<close> become 0, the source of the
  current track is set and loaded again, and the handlers are replaced by new ones that
  close over the new flag. The index and everything else stay.
\<close>

theorem toggleRepeat_reloads_current_track:
  assumes "reachable ts s"
  shows "toggleRepeat ts s =
           Inr (s\<lparr>isRepeat := \<not> isRepeat s, status := Loading, current := Fin 0,
                  duration := Fin 0,
                  calls := calls s @ [SetSrc (audioUrl (ts ! index s)), Load],
                  listeners := [\<lparr>c_track = ts ! index s, c_index = index s,
                                 c_isRepeat = \<not> isRepeat s, c_isShuffle = isShuffle s\<rparr>],
                  load_hook := Some \<lparr>c_track = ts ! index s, c_index = index s,
                                 c_isRepeat = \<not> isRepeat s, c_isShuffle = isShuffle s\<rparr>\<rparr>)"
  using reachable_synced [OF assms] by (rule toggleRepeat_synced)

theorem toggleRepeat_reloads_current_track_witness:
  "reachable tracks metadata_loaded \<and>
   toggleRepeat tracks metadata_loaded =
     Inr (metadata_loaded\<lparr>isRepeat := True, status := Loading, current := Fin 0,
            duration := Fin 0,
            calls := calls metadata_loaded @ [SetSrc (audioUrl (tracks ! 0)), Load],
            listeners := [\<lparr>c_track = tracks ! 0, c_index = 0,
                           c_isRepeat = True, c_isShuffle = False\<rparr>],
            load_hook := Some \<lparr>c_track = tracks ! 0, c_index = 0,
                           c_isRepeat = True, c_isShuffle = False\<rparr>\<rparr>)"
proof -
  have "index metadata_loaded = 0" "\<not> isRepeat metadata_loaded" "\<not> isShuffle metadata_loaded"
    by (simp_all add: metadata_loaded_def on_mount_def)
  with toggleRepeat_reloads_current_track [OF reachable_metadata_loaded]
    reachable_metadata_loaded
  show ?thesis by simp
qed

section \<open>Claims on the events of the audio element\<close>

lemma select_other:
  assumes "synced ts s" "j < length ts" "j \<noteq> index s"
  shows "then_commit ts (set_index (Some j) s) =
           Inr (s\<lparr>index := j, status := Loading, current := Fin 0, duration := Fin 0,
                  calls := calls s @ [SetSrc (audioUrl (ts ! j)), Load],
                  listeners := [\<lparr>c_track = ts ! j, c_index = j, c_isRepeat = isRepeat s,
                                 c_isShuffle = isShuffle s\<rparr>],
                  load_hook := Some \<lparr>c_track = ts ! j, c_index = j, c_isRepeat = isRepeat s,
                                 c_isShuffle = isShuffle s\<rparr>\<rparr>)"
  using assms
  by (auto simp: synced_def hooked_def set_index_def then_commit_def commit_def
      render_track_def lookup_def load_effect_def deps_def run_load_def cleanup_def
      volume_effect_def split: option.splits)

lemma deliver_ended_repeat:
  assumes "synced ts s" "isRepeat s"
  shows "deliver ts rnd Ev_ended a s =
           Inr (s\<lparr>calls := calls s @ [SetCurrentTime (Fin 0), Play],
                  pending := pending s @ [Swallow], status := Playing\<rparr>)"
proof -
  from assms obtain c where c: "listeners s = [c]" "c_isRepeat c"
    by (auto simp: synced_def hooked_def split: option.splits)
  have "synced ts (s\<lparr>calls := calls s @ [SetCurrentTime (Fin 0), Play],
                  pending := pending s @ [Swallow], status := Playing\<rparr>)"
    using assms(1)
    by (auto simp: synced_def hooked_def applied_volume_append split: option.splits)
  from commit_synced [OF this] show ?thesis
    by (simp add: deliver_def c handle_def onEnded_def then_commit_def)
qed

lemma deliver_ended_next:
  assumes "synced ts s" "\<not> isRepeat s" "\<forall>c\<in>set (listeners s). c_isShuffle c = isShuffle s"
  shows "deliver ts rnd Ev_ended a s = next ts rnd s"
proof -
  from assms obtain c where c: "listeners s = [c]" "\<not> c_isRepeat c" "c_index c = index s"
    "c_isShuffle c = isShuffle s"
    by (auto simp: synced_def hooked_def split: option.splits)
  show ?thesis
    by (simp add: deliver_def c handle_def onEnded_def next_def
        split: sum.splits)
qed

lemma next_on_mount: "next tracks draws_0 on_mount = Inr switched"
proof -
  have a: "\<not> isShuffle on_mount" "index on_mount = 0" "\<not> isRepeat on_mount"
    by (simp_all add: on_mount_def)
  have l: "length tracks = 2" by (simp add: tracks_def)
  have n: "next_index tracks draws_0 False 0 0 = Some 1"
    by (simp add: next_index_def l)
  have "(1::nat) < length tracks" "(1::nat) \<noteq> index on_mount" by (simp_all add: l a)
  from select_other [OF synced_on_mount this] show ?thesis
    by (simp add: next_def a n switched_def on_mount_def)
qed

lemma reachable_switched: "reachable tracks switched"
proof -
  have "step tracks draws_0 el_paused Next on_mount = Inr switched"
    by (simp add: step_def next_on_mount)
  with reachable_on_mount show ?thesis by (rule reachable.stepped)
qed

lemma reachable_repeating: "reachable tracks repeating"
proof -
  let ?c = "\<lparr>c_track = tracks ! 0, c_index = 0, c_isRepeat = True, c_isShuffle = False\<rparr>"
  let ?r1 = "metadata_loaded\<lparr>isRepeat := True, status := Loading, current := Fin 0,
      duration := Fin 0,
      calls := calls metadata_loaded @ [SetSrc (audioUrl (tracks ! 0)), Load],
      listeners := [?c], load_hook := Some ?c\<rparr>"
  let ?r2 = "?r1\<lparr>duration := Fin 200, status := Paused\<rparr>"
  let ?r3 = "?r2\<lparr>status := Loading, calls := calls ?r2 @ [Play],
      pending := pending ?r2 @ [RevertToPaused]\<rparr>"
  let ?r4 = "?r3\<lparr>pending := []\<rparr>"
  have m: "index metadata_loaded = 0" "\<not> isRepeat metadata_loaded" "\<not> isShuffle metadata_loaded"
    by (simp_all add: metadata_loaded_def on_mount_def)
  have "step tracks draws_0 el_paused ToggleRepeat metadata_loaded = Inr ?r1"
    using toggleRepeat_synced [OF reachable_synced [OF reachable_metadata_loaded]]
    by (simp add: step_def m)
  with reachable_metadata_loaded have r1: "reachable tracks ?r1" by (rule reachable.stepped)
  have "step tracks draws_0 el_paused (Event Ev_loadedmetadata) ?r1 = Inr ?r2"
    using deliver_loadedmetadata [OF reachable_synced [OF r1], of ?c draws_0 el_paused]
    by (simp add: step_def el_paused_def js_or_def)
  with r1 have r2: "reachable tracks ?r2" by (rule reachable.stepped)
  have "step tracks draws_0 el_paused TogglePlay ?r2 = Inr ?r3"
    using togglePlay_paused [OF reachable_synced [OF r2], of el_paused]
    by (simp add: step_def el_paused_def)
  with r2 have r3: "reachable tracks ?r3" by (rule reachable.stepped)
  have pm: "pending metadata_loaded = []"
    by (simp add: metadata_loaded_def on_mount_def)
  have "synced tracks ?r4"
    using reachable_synced [OF r3]
    by (auto simp: synced_def hooked_def split: option.splits)
  from commit_synced [OF this]
  have "step tracks draws_0 el_paused (PlaySettled 0 False) ?r3 = Inr ?r4"
    by (simp add: step_def play_settled_def then_commit_def pm)
  with r3 have r4: "reachable tracks ?r4" by (rule reachable.stepped)
  have l4: "listeners ?r4 = [?c]" by simp
  have "synced tracks (?r4\<lparr>status := Playing\<rparr>)"
    using reachable_synced [OF r4]
    by (auto simp: synced_def hooked_def split: option.splits)
  from commit_synced [OF this]
  have "step tracks draws_0 el_paused (Event Ev_playing) ?r4 = Inr (?r4\<lparr>status := Playing\<rparr>)"
    by (simp add: step_def deliver_def handle_def onPlaying_def then_commit_def)
  with r4 have "reachable tracks (?r4\<lparr>status := Playing\<rparr>)" by (rule reachable.stepped)
  moreover have "?r4\<lparr>status := Playing\<rparr> = repeating"
    by (simp add: repeating_def metadata_loaded_def on_mount_def)
  ultimately show ?thesis by simp
qed

lemma succ_mod_differs:
  assumes "i < n" "1 < n"
  shows "(i + 1) mod n \<noteq> (i::nat)"
proof (cases "i + 1 < n")
  case True
  then show ?thesis by simp
next
  case False
  with assms have "i + 1 = n" by linarith
  then have "(i + 1) mod n = 0" by simp
  moreover have "i \<noteq> 0" using \<open>i + 1 = n\<close> assms(2) by linarith
  ultimately show ?thesis by simp
qed

lemma next_seq_loads:
  assumes "synced ts s" "\<not> isShuffle s" "1 < length ts"
  shows "\<exists>s'. next ts rnd s = Inr s' \<and> index s' = (index s + 1) mod length ts \<and>
              status s' = Loading \<and> current s' = Fin 0 \<and> duration s' = Fin 0 \<and>
              calls s' = calls s @ [SetSrc (audioUrl (ts ! index s')), Load]"
proof -
  let ?j = "(index s + 1) mod length ts"
  have i: "index s < length ts" using assms(1) by (simp add: synced_def)
  have pos: "0 < length ts" using assms(3) by linarith
  have lt: "?j < length ts" using pos by (rule mod_less_divisor)
  have ne: "?j \<noteq> index s" using i assms(3) by (rule succ_mod_differs)
  have "next ts rnd s = then_commit ts (set_index (Some ?j) s)"
    using assms(2) by (simp add: next_def next_index_seq [OF pos])
  with select_other [OF assms(1) lt ne] show ?thesis by simp
qed

text \<open>
  C1 as stated does not hold. The component has no generation counter and an event of the
  element carries nothing that would say which load it comes from, so no event is discarded.
  After the mount (the load of the first track) and \<^verbatim>\<open>next()\<close> (the load of the second),
  the state is loading with duration 0; a \<^verbatim>\<open>loadedmetadata\<close> event that is delivered then is
  handled: the status becomes paused and the duration becomes whatever the element reports
  at that moment, 200 in the first delivery below, nothing (hence 0) in the second.
\<close>

theorem late_metadata_event_is_handled:
  "next tracks draws_0 on_mount = Inr switched \<and>
   status switched = Loading \<and> duration switched = Fin 0 \<and>
   deliver tracks draws_0 Ev_loadedmetadata el_paused switched =
     Inr (switched\<lparr>duration := Fin 200, status := Paused\<rparr>) \<and>
   deliver tracks draws_0 Ev_loadedmetadata el_reset switched =
     Inr (switched\<lparr>duration := Fin 0, status := Paused\<rparr>) \<and>
   switched\<lparr>duration := Fin 200, status := Paused\<rparr> \<noteq> switched \<and>
   switched\<lparr>duration := Fin 0, status := Paused\<rparr> \<noteq> switched"
proof -
  let ?c = "\<lparr>c_track = tracks ! 1, c_index = 1, c_isRepeat = False, c_isShuffle = False\<rparr>"
  have h: "load_hook switched = Some ?c" by (simp add: switched_def)
  note d = deliver_loadedmetadata [OF reachable_synced [OF reachable_switched] h, of draws_0]
  have a: "deliver tracks draws_0 Ev_loadedmetadata el_paused switched =
     Inr (switched\<lparr>duration := Fin 200, status := Paused\<rparr>)"
    using d [of el_paused] by (simp add: el_paused_def js_or_def)
  have b: "deliver tracks draws_0 Ev_loadedmetadata el_reset switched =
     Inr (switched\<lparr>duration := Fin 0, status := Paused\<rparr>)"
    using d [of el_reset] by (simp add: el_reset_def js_or_def hint_or_0_def tracks_def)
  have c: "status switched = Loading" "duration switched = Fin 0"
    by (simp_all add: switched_def on_mount_def)
  have e: "switched\<lparr>duration := Fin 200, status := Paused\<rparr> \<noteq> switched"
  proof
    assume "switched\<lparr>duration := Fin 200, status := Paused\<rparr> = switched"
    then have "status (switched\<lparr>duration := Fin 200, status := Paused\<rparr>) = status switched"
      by simp
    with c show False by simp
  qed
  have f: "switched\<lparr>duration := Fin 0, status := Paused\<rparr> \<noteq> switched"
  proof
    assume "switched\<lparr>duration := Fin 0, status := Paused\<rparr> = switched"
    then have "status (switched\<lparr>duration := Fin 0, status := Paused\<rparr>) = status switched"
      by simp
    with c show False by simp
  qed
  from next_on_mount a b c e f show ?thesis by blast
qed

text \<open>
  C1, amended. A change of track (\<^verbatim>\<open>setIndex\<close> to another index \<^verbatim>\<open>j\<close> of the playlist and the
  commit that follows, which is what \<^verbatim>\<open>prev\<close>, \<^verbatim>\<open>next\<close> and \<^verbatim>\<open>onEnded\<close> do; the last conjunct
  says so for \<^verbatim>\<open>next\<close>) runs the load effect again: the status is loading, \<^verbatim>\<open>current\<close> and
  \<^verbatim>\<open>duration\<close> are 0, the source of track \<^verbatim>\<open>j\<close> is set and loaded, and the handlers of the
  previous run are removed, those of the new run being the only ones registered. Every
  \<^verbatim>\<open>loadedmetadata\<close> event delivered after that is handled by the new handlers: the duration
  becomes \<^verbatim>\<open>a.duration\<close> as the element reports it then, else the \<^verbatim>\<open>durationHint\<close> of track
  \<^verbatim>\<open>j\<close>, else 0, and the status becomes paused.
\<close>

theorem track_change_replaces_listeners:
  assumes "reachable ts s" "j < length ts" "j \<noteq> index s"
  shows "\<exists>s'. then_commit ts (set_index (Some j) s) = Inr s' \<and>
              index s' = j \<and> status s' = Loading \<and> current s' = Fin 0 \<and> duration s' = Fin 0 \<and>
              calls s' = calls s @ [SetSrc (audioUrl (ts ! j)), Load] \<and>
              listeners s' = [\<lparr>c_track = ts ! j, c_index = j, c_isRepeat = isRepeat s,
                                c_isShuffle = isShuffle s\<rparr>] \<and>
              (\<forall>a. deliver ts rnd Ev_loadedmetadata a s' =
                     Inr (s'\<lparr>duration := js_or (a_duration a) (hint_or_0 (ts ! j)),
                             status := Paused\<rparr>)) \<and>
              (\<not> isShuffle s \<and> j = (index s + 1) mod length ts \<longrightarrow> next ts rnd s = Inr s')"
proof -
  let ?c = "\<lparr>c_track = ts ! j, c_index = j, c_isRepeat = isRepeat s, c_isShuffle = isShuffle s\<rparr>"
  let ?s' = "s\<lparr>index := j, status := Loading, current := Fin 0, duration := Fin 0,
                  calls := calls s @ [SetSrc (audioUrl (ts ! j)), Load],
                  listeners := [?c], load_hook := Some ?c\<rparr>"
  note sy = reachable_synced [OF assms(1)]
  have sel: "then_commit ts (set_index (Some j) s) = Inr ?s'"
    using sy assms(2,3) by (rule select_other)
  have sy': "synced ts ?s'"
    using sy assms(2)
    by (auto simp: synced_def hooked_def applied_volume_append split: option.splits)
  have h: "load_hook ?s' = Some ?c" by simp
  have ev: "\<forall>a. deliver ts rnd Ev_loadedmetadata a ?s' =
                     Inr (?s'\<lparr>duration := js_or (a_duration a) (hint_or_0 (ts ! j)),
                             status := Paused\<rparr>)"
    using deliver_loadedmetadata [OF sy' h, of rnd] by simp
  have pos: "0 < length ts" using assms(2) by linarith
  have nx: "\<not> isShuffle s \<and> j = (index s + 1) mod length ts \<longrightarrow> next ts rnd s = Inr ?s'"
  proof (intro impI)
    assume "\<not> isShuffle s \<and> j = (index s + 1) mod length ts"
    then have "next ts rnd s = then_commit ts (set_index (Some j) s)"
      by (simp add: next_def next_index_seq [OF pos])
    with sel show "next ts rnd s = Inr ?s'" by simp
  qed
  show ?thesis
    using sel ev nx by (intro exI [of _ ?s']) simp
qed

theorem track_change_replaces_listeners_witness:
  "reachable tracks on_mount \<and> (1::nat) < length tracks \<and> (1::nat) \<noteq> index on_mount \<and>
   \<not> isShuffle on_mount \<and> (1::nat) = (index on_mount + 1) mod length tracks \<and>
   (\<exists>s'. then_commit tracks (set_index (Some 1) on_mount) = Inr s' \<and>
          index s' = 1 \<and> status s' = Loading \<and> current s' = Fin 0 \<and> duration s' = Fin 0 \<and>
          calls s' = calls on_mount @ [SetSrc (audioUrl (tracks ! 1)), Load] \<and>
          listeners s' = [\<lparr>c_track = tracks ! 1, c_index = 1, c_isRepeat = isRepeat on_mount,
                            c_isShuffle = isShuffle on_mount\<rparr>] \<and>
          (\<forall>a. deliver tracks draws_0 Ev_loadedmetadata a s' =
                 Inr (s'\<lparr>duration := js_or (a_duration a) (hint_or_0 (tracks ! 1)),
                         status := Paused\<rparr>)) \<and>
          next tracks draws_0 on_mount = Inr s')"
proof -
  have a: "(1::nat) < length tracks" by (simp add: tracks_def)
  have b: "(1::nat) \<noteq> index on_mount" by (simp add: on_mount_def)
  have c: "\<not> isShuffle on_mount" by (simp add: on_mount_def)
  have d: "(1::nat) = (index on_mount + 1) mod length tracks"
    by (simp add: on_mount_def tracks_def)
  from track_change_replaces_listeners [OF reachable_on_mount a b, of draws_0] c d
  have "\<exists>s'. then_commit tracks (set_index (Some 1) on_mount) = Inr s' \<and>
          index s' = 1 \<and> status s' = Loading \<and> current s' = Fin 0 \<and> duration s' = Fin 0 \<and>
          calls s' = calls on_mount @ [SetSrc (audioUrl (tracks ! 1)), Load] \<and>
          listeners s' = [\<lparr>c_track = tracks ! 1, c_index = 1, c_isRepeat = isRepeat on_mount,
                            c_isShuffle = isShuffle on_mount\<rparr>] \<and>
          (\<forall>a. deliver tracks draws_0 Ev_loadedmetadata a s' =
                 Inr (s'\<lparr>duration := js_or (a_duration a) (hint_or_0 (tracks ! 1)),
                         status := Paused\<rparr>)) \<and>
          next tracks draws_0 on_mount = Inr s'"
    by blast
  with reachable_on_mount a b c d show ?thesis by blast
qed

text \<open>
  C9 as stated does not hold. With repeat on, \<^verbatim>\<open>onEnded\<close> sets the status to playing in the same
  step in which it calls \<^verbatim>\<open>a.play()\<close>: the status is never loading, the promise of \<^verbatim>\<open>play()\<close>
  is still pending when the status is already playing, and the status stays playing when
  that promise rejects.
\<close>

theorem ended_with_repeat_sets_playing_at_once:
  "reachable tracks repeating \<and> isRepeat repeating \<and> status repeating = Playing \<and>
   deliver tracks draws_0 Ev_ended el_ended repeating =
     Inr (repeating\<lparr>calls := calls repeating @ [SetCurrentTime (Fin 0), Play],
                     pending := [Swallow], status := Playing\<rparr>) \<and>
   status (repeating\<lparr>calls := calls repeating @ [SetCurrentTime (Fin 0), Play],
                     pending := [Swallow], status := Playing\<rparr>) \<noteq> Loading \<and>
   play_settled tracks 0 True
       (repeating\<lparr>calls := calls repeating @ [SetCurrentTime (Fin 0), Play],
                   pending := [Swallow], status := Playing\<rparr>) =
     Inr (repeating\<lparr>calls := calls repeating @ [SetCurrentTime (Fin 0), Play],
                     pending := [], status := Playing\<rparr>)"
proof -
  let ?e = "repeating\<lparr>calls := calls repeating @ [SetCurrentTime (Fin 0), Play],
                     pending := [Swallow], status := Playing\<rparr>"
  note sy = reachable_synced [OF reachable_repeating]
  have r: "isRepeat repeating" "status repeating = Playing" "pending repeating = []"
    by (simp_all add: repeating_def on_mount_def)
  have d: "deliver tracks draws_0 Ev_ended el_ended repeating = Inr ?e"
    using deliver_ended_repeat [OF sy r(1), of draws_0 el_ended] by (simp add: r)
  have "synced tracks (?e\<lparr>pending := []\<rparr>)"
    using sy by (auto simp: synced_def hooked_def applied_volume_append split: option.splits)
  from commit_synced [OF this]
  have p: "play_settled tracks 0 True ?e =
     Inr (repeating\<lparr>calls := calls repeating @ [SetCurrentTime (Fin 0), Play],
                     pending := [], status := Playing\<rparr>)"
    by (simp add: play_settled_def then_commit_def)
  have n: "status ?e \<noteq> Loading" by simp
  from reachable_repeating r(1,2) d n p show ?thesis by blast
qed

text \<open>
  C9, amended. On \<^verbatim>\<open>ended\<close> in a reachable state: with repeat on, the component writes 0 to
  \<^verbatim>\<open>a.currentTime\<close>, calls \<^verbatim>\<open>a.play()\<close> and sets the status to playing at once; the index, the
  handlers and everything else stay, and nothing is loaded. With repeat off it does what
  \<^verbatim>\<open>next()\<close> does, as long as the shuffle flag is the one the handlers were registered with;
  with shuffle off and more than one track that is the index \<^verbatim>\<open>(i + 1) mod length\<close>, in
  status loading, with the source of that track set and loaded.
\<close>

theorem ended_restarts_or_advances:
  assumes "reachable ts s"
  shows "(isRepeat s \<longrightarrow>
            deliver ts rnd Ev_ended a s =
              Inr (s\<lparr>calls := calls s @ [SetCurrentTime (Fin 0), Play],
                     pending := pending s @ [Swallow], status := Playing\<rparr>)) \<and>
         (\<not> isRepeat s \<and> map c_isShuffle (listeners s) = [isShuffle s] \<longrightarrow>
            deliver ts rnd Ev_ended a s = next ts rnd s) \<and>
         (\<not> isRepeat s \<and> \<not> isShuffle s \<and> map c_isShuffle (listeners s) = [False] \<and>
          1 < length ts \<longrightarrow>
            (\<exists>s'. deliver ts rnd Ev_ended a s = Inr s' \<and>
                   index s' = (index s + 1) mod length ts \<and>
                   status s' = Loading \<and> current s' = Fin 0 \<and> duration s' = Fin 0 \<and>
                   calls s' = calls s @ [SetSrc (audioUrl (ts ! index s')), Load]))"
proof -
  note sy = reachable_synced [OF assms]
  have a: "isRepeat s \<longrightarrow>
            deliver ts rnd Ev_ended a s =
              Inr (s\<lparr>calls := calls s @ [SetCurrentTime (Fin 0), Play],
                     pending := pending s @ [Swallow], status := Playing\<rparr>)"
    using deliver_ended_repeat [OF sy] by blast
  have b: "\<not> isRepeat s \<and> map c_isShuffle (listeners s) = [isShuffle s] \<longrightarrow>
            deliver ts rnd Ev_ended a s = next ts rnd s"
  proof (intro impI)
    assume h: "\<not> isRepeat s \<and> map c_isShuffle (listeners s) = [isShuffle s]"
    then have "\<forall>c\<in>set (listeners s). c_isShuffle c = isShuffle s"
      by (metis list.set_map list.simps(15) empty_set imageI singletonD)
    with sy h show "deliver ts rnd Ev_ended a s = next ts rnd s"
      by (intro deliver_ended_next) simp_all
  qed
  have c: "\<not> isRepeat s \<and> \<not> isShuffle s \<and> map c_isShuffle (listeners s) = [False] \<and>
          1 < length ts \<longrightarrow>
            (\<exists>s'. deliver ts rnd Ev_ended a s = Inr s' \<and>
                   index s' = (index s + 1) mod length ts \<and>
                   status s' = Loading \<and> current s' = Fin 0 \<and> duration s' = Fin 0 \<and>
                   calls s' = calls s @ [SetSrc (audioUrl (ts ! index s')), Load])"
  proof (intro impI)
    assume h: "\<not> isRepeat s \<and> \<not> isShuffle s \<and> map c_isShuffle (listeners s) = [False] \<and>
          1 < length ts"
    with b have "deliver ts rnd Ev_ended a s = next ts rnd s" by simp
    with next_seq_loads [OF sy, of rnd] h
    show "\<exists>s'. deliver ts rnd Ev_ended a s = Inr s' \<and>
                   index s' = (index s + 1) mod length ts \<and>
                   status s' = Loading \<and> current s' = Fin 0 \<and> duration s' = Fin 0 \<and>
                   calls s' = calls s @ [SetSrc (audioUrl (ts ! index s')), Load]"
      by simp
  qed
  from a b c show ?thesis by blast
qed

theorem ended_restarts_or_advances_witness:
  "reachable tracks repeating \<and> isRepeat repeating \<and>
   deliver tracks draws_0 Ev_ended el_ended repeating =
     Inr (repeating\<lparr>calls := calls repeating @ [SetCurrentTime (Fin 0), Play],
                     pending := pending repeating @ [Swallow], status := Playing\<rparr>) \<and>
   reachable tracks on_mount \<and> \<not> isRepeat on_mount \<and> \<not> isShuffle on_mount \<and>
   map c_isShuffle (listeners on_mount) = [False] \<and> 1 < length tracks \<and>
   deliver tracks draws_0 Ev_ended el_ended on_mount = next tracks draws_0 on_mount \<and>
   deliver tracks draws_0 Ev_ended el_ended on_mount = Inr switched \<and>
   id_track (tracks ! index on_mount) = ''t1'' \<and> id_track (tracks ! index switched) = ''t2''"
proof -
  have r: "isRepeat repeating" by (simp add: repeating_def)
  have m: "\<not> isRepeat on_mount" "\<not> isShuffle on_mount"
    "map c_isShuffle (listeners on_mount) = [False]"
    "map c_isShuffle (listeners on_mount) = [isShuffle on_mount]"
    by (simp_all add: on_mount_def)
  have l: "1 < length tracks" by (simp add: tracks_def)
  from ended_restarts_or_advances [OF reachable_repeating, of draws_0 el_ended] r
  have a: "deliver tracks draws_0 Ev_ended el_ended repeating =
     Inr (repeating\<lparr>calls := calls repeating @ [SetCurrentTime (Fin 0), Play],
                     pending := pending repeating @ [Swallow], status := Playing\<rparr>)"
    by blast
  from ended_restarts_or_advances [OF reachable_on_mount, of draws_0 el_ended] m
  have b: "deliver tracks draws_0 Ev_ended el_ended on_mount = next tracks draws_0 on_mount"
    by blast
  with next_on_mount
  have c: "deliver tracks draws_0 Ev_ended el_ended on_mount = Inr switched" by simp
  have d: "id_track (tracks ! index on_mount) = ''t1''"
    "id_track (tracks ! index switched) = ''t2''"
    by (simp_all add: on_mount_def switched_def tracks_def)
  from reachable_repeating r a reachable_on_mount m(1,2,3) l b c d show ?thesis by blast
qed

end
